theory Spec2Isabelle
  imports Main "HOL-Library.Word" "HOL-Library.Code_Target_Nat"
begin

unbundle bit_operations_syntax

section \<open>Common types\<close>

type_synonym u64 = "64 word"
type_synonym bytes = "8 word list"
type_synonym hash = "8 word list"

text \<open>Go run-time panics that the modelled functions can raise.\<close>

datatype go_panic = DivideByZero | IndexOutOfRange | SliceBoundsOutOfRange | NegativeLen

text \<open>
  Modelled from the spec: the constants \<open>modules.SectorSize\<close> and \<open>crypto.SegmentSize\<close>
  are declared outside the covered sources; the spec gives a sector of 4 MiB and a
  segment (leaf) of 64 bytes.
\<close>

definition SectorSize :: u64 where
  "SectorSize = 4194304"

definition SegmentSize :: u64 where
  "SegmentSize = 64"

text \<open>
  The \<open>modules.ErasureCoder\<close> interface as the download code reads it: \<open>MinPieces()\<close> and
  \<open>NumPieces()\<close> are Go \<open>int\<close>s, \<open>SupportsPartialEncoding()\<close> returns a segment size and
  a flag.
\<close>

record erasureCoder =
  MinPieces :: int
  NumPieces :: int
  partialSegmentSize :: u64
  partialsSupported :: bool

text \<open>Go's conversion \<open>uint64(n)\<close> of an \<open>int\<close>.\<close>

definition uint64_of_int :: "int \<Rightarrow> u64" where
  "uint64_of_int n = word_of_int n"

section \<open>Piece offset and length (getPieceOffsetAndLen)\<close>

text \<open>
  \<open>build.Critical\<close> logs (release build) and the function then returns the whole sector.
  Unsigned division by zero panics in Go, so both divisors are checked where the source
  divides.
\<close>

definition getPieceOffsetAndLen :: "erasureCoder \<Rightarrow> u64 \<Rightarrow> u64 \<Rightarrow> go_panic + (u64 \<times> u64)" where
  "getPieceOffsetAndLen ec offset len =
     (let pieceSegmentSize = (if partialsSupported ec then partialSegmentSize ec else SectorSize)
      in if pieceSegmentSize = 0 \<or> pieceSegmentSize mod SegmentSize \<noteq> 0
         then Inr (0, SectorSize)
         else if uint64_of_int (MinPieces ec) = 0 then Inl DivideByZero
         else
           let pieceOffset0 = offset div uint64_of_int (MinPieces ec);
               pieceOffset1 = pieceOffset0 div pieceSegmentSize;
               pieceOffset = pieceOffset1 * pieceSegmentSize;
               chunkSegmentSize = pieceSegmentSize * uint64_of_int (MinPieces ec);
               chunkTerminationOffset0 = offset + len
           in if chunkSegmentSize = 0 then Inl DivideByZero
              else
                let overflow = chunkTerminationOffset0 mod chunkSegmentSize;
                    chunkTerminationOffset =
                      (if overflow \<noteq> 0 then chunkTerminationOffset0 + (chunkSegmentSize - overflow)
                       else chunkTerminationOffset0);
                    pieceTerminationOffset = chunkTerminationOffset div pieceSegmentSize;
                    pieceLength = pieceTerminationOffset - pieceOffset
                in Inr (pieceOffset, pieceLength))"

text \<open>A 10-of-30 coder with 64-byte segments, as in the spec's scenarios.\<close>

definition ec_10_30 :: erasureCoder where
  "ec_10_30 = \<lparr>MinPieces = 10, NumPieces = 30, partialSegmentSize = 64, partialsSupported = True\<rparr>"

section \<open>Orchestrator state (pieceDownload, projectDownloadChunk)\<close>

text \<open>
  A \<open>time.Time\<close> is an instant in nanoseconds, the zero \<open>time.Time{}\<close> being 0; a
  \<open>time.Duration\<close> is an \<open>int64\<close> count of nanoseconds. \<open>Time.Sub\<close> (and so
  \<open>time.Until\<close>, \<open>time.Since\<close>) saturates at the ends of \<open>int64\<close>; \<open>+\<close> on durations
  wraps around.
\<close>

type_synonym time = int
type_synonym duration = int

definition MaxInt64 :: int where
  "MaxInt64 = 9223372036854775807"

definition MinInt64 :: int where
  "MinInt64 = - 9223372036854775808"

definition wrap_int64 :: "int \<Rightarrow> int" where
  "wrap_int64 x = (x + 9223372036854775808) mod 18446744073709551616 - 9223372036854775808"

definition time_Sub :: "time \<Rightarrow> time \<Rightarrow> duration" where
  "time_Sub t u = (if t - u > MaxInt64 then MaxInt64 else if t - u < MinInt64 then MinInt64 else t - u)"

definition time_Until :: "time \<Rightarrow> time \<Rightarrow> duration" where
  "time_Until now t = time_Sub t now"

definition time_Since :: "time \<Rightarrow> time \<Rightarrow> duration" where
  "time_Since now t = time_Sub now t"

definition duration_add :: "duration \<Rightarrow> duration \<Rightarrow> duration" where
  "duration_add d e = wrap_int64 (d + e)"

definition Millisecond :: duration where
  "Millisecond = 1000000"

text \<open>
  A worker, as far as the download code reads it: its host key string and its read queue.
  The read queue's \<open>callExpectedJobTime\<close> and \<open>callExpectedJobCost\<close> are declared outside
  the covered sources; they enter as the two functions of the piece length that the queue
  answers with (a duration and a \<open>types.Currency\<close>, an unbounded natural number).
\<close>

record worker =
  staticHostPubKeyStr :: string
  callExpectedJobTime :: "u64 \<Rightarrow> duration"
  callExpectedJobCost :: "u64 \<Rightarrow> nat"

record pieceDownload =
  completed :: bool
  failed :: bool
  launched :: bool
  expectedCompletionTime :: time
  pdWorker :: worker

text \<open>
  \<open>dataPieces\<close> holds one optional piece per index (\<open>None\<close> is Go's nil slice). The
  channels and the context of the Go struct are what the functions below return or take
  as the next event.
\<close>

record projectDownloadChunk =
  chunkLength :: u64
  chunkOffset :: u64
  pricePerMS :: nat
  pieceLength :: u64
  pieceOffset :: u64
  availablePieces :: "pieceDownload list list"
  workersConsidered :: "string set"
  dataPieces :: "bytes option list"

record pcwsUnresolvedWorker =
  staticExpectedCompletionTime :: time
  staticWorker :: worker

text \<open>
  The chunk worker set: the erasure coder, the per-block overhead of the master key's
  cipher type (\<open>staticMasterKey.Type().Overhead()\<close>), the piece roots and the workers
  whose HasSector probe is still out.
\<close>

record projectChunkWorkerSet =
  staticErasureCoder :: erasureCoder
  staticMasterKeyOverhead :: u64
  staticPieceRoots :: "hash list"
  unresolvedWorkers :: "pcwsUnresolvedWorker list"

datatype recover_error = RecoverFailed

datatype download_error =
    ErrNotEnoughPieces
  | ErrDownloadFailedWaiting
  | ErrRecover recover_error
  | ErrEncryptionOverhead
  | ErrNotEnoughPotentialWorkers
  | ErrTimedOutWaitingForWorker
  | ErrNoGoodWorker download_error
  | ErrUnableToLaunch download_error
  | ErrNotEnoughWorkersToKickOff download_error
  | ErrJobFailed

record downloadResponse =
  drData :: "bytes option"
  drErr :: "download_error option"

record jobReadResponse =
  staticData :: bytes
  staticErr :: "download_error option"
  staticSectorRoot :: hash
  jrrWorker :: worker

section \<open>handleJobReadResponse\<close>

text \<open>
  The index search: the first root equal to the response's root, and index 0 when the
  loop ends without a match (\<open>pieceIndex := 0\<close> is never overwritten then).
\<close>

fun findPieceIndex :: "hash \<Rightarrow> hash list \<Rightarrow> nat \<Rightarrow> nat" where
  "findPieceIndex r [] i = 0"
| "findPieceIndex r (root # roots) i = (if r = root then i else findPieceIndex r roots (Suc i))"

definition markFailed :: "string \<Rightarrow> pieceDownload list \<Rightarrow> pieceDownload list" where
  "markFailed key pds =
     map (\<lambda>pd. if staticHostPubKeyStr (pdWorker pd) = key then pd\<lparr>failed := True\<rparr> else pd) pds"

definition markCompleted :: "string \<Rightarrow> pieceDownload list \<Rightarrow> pieceDownload list" where
  "markCompleted key pds =
     map (\<lambda>pd. if staticHostPubKeyStr (pdWorker pd) = key then pd\<lparr>completed := True\<rparr> else pd) pds"

text \<open>
  A nil response is logged and dropped. Indexing \<open>availablePieces\<close> or \<open>dataPieces\<close> out
  of range panics.
\<close>

definition handleJobReadResponse ::
  "projectChunkWorkerSet \<Rightarrow> projectDownloadChunk \<Rightarrow> jobReadResponse option
    \<Rightarrow> go_panic + projectDownloadChunk" where
  "handleJobReadResponse ws pdc jrrOpt =
     (case jrrOpt of
        None \<Rightarrow> Inr pdc
      | Some jrr \<Rightarrow>
          let pieceIndex = findPieceIndex (staticSectorRoot jrr) (staticPieceRoots ws) 0;
              key = staticHostPubKeyStr (jrrWorker jrr)
          in if staticErr jrr \<noteq> None then
               (if pieceIndex < length (availablePieces pdc)
                then Inr (pdc\<lparr>availablePieces :=
                       (availablePieces pdc)[pieceIndex := markFailed key (availablePieces pdc ! pieceIndex)]\<rparr>)
                else Inl IndexOutOfRange)
             else if pieceIndex < length (dataPieces pdc) then
               (if pieceIndex < length (availablePieces pdc)
                then Inr (pdc\<lparr>dataPieces := (dataPieces pdc)[pieceIndex := Some (staticData jrr)],
                            availablePieces :=
                       (availablePieces pdc)[pieceIndex := markCompleted key (availablePieces pdc ! pieceIndex)]\<rparr>)
                else Inl IndexOutOfRange)
             else Inl IndexOutOfRange)"

section \<open>fail and finalize\<close>

definition fail :: "download_error \<Rightarrow> downloadResponse" where
  "fail err = \<lparr>drData = None, drErr = Some err\<rparr>"

text \<open>
  The erasure coder's \<open>Recover(pieces, n, w)\<close> is declared outside the covered sources: it
  enters as the parameter \<open>recover\<close>, from the sparse piece array and the byte count \<open>n\<close>
  to an error or the state of the buffer after the call: the bytes written and the bytes
  of spare capacity that lie behind them in the buffer's array. \<open>buf.Bytes()\<close> is the
  written bytes with that capacity, and Go bounds the slice expression \<open>data[start:end]\<close>
  by the capacity: it panics when \<open>start > end\<close> or \<open>end\<close> is beyond the capacity, and
  otherwise reads from the written bytes followed by the spare ones.
\<close>

definition finalize ::
  "(bytes option list \<Rightarrow> u64 \<Rightarrow> recover_error + bytes \<times> bytes) \<Rightarrow> projectChunkWorkerSet
    \<Rightarrow> projectDownloadChunk \<Rightarrow> go_panic + downloadResponse" where
  "finalize recover ws pdc =
     (let ec = staticErasureCoder ws;
          chunkDLOffset = pieceOffset pdc * uint64_of_int (MinPieces ec);
          chunkDLLength = pieceOffset pdc * uint64_of_int (MinPieces ec)
      in case recover (dataPieces pdc) (chunkDLOffset + chunkDLLength) of
           Inl err \<Rightarrow> Inr (fail (ErrRecover err))
         | Inr (written, spare) \<Rightarrow>
             let chunkStartWithinData = chunkOffset pdc - chunkDLOffset;
                 chunkEndWithinData = chunkLength pdc + chunkStartWithinData
             in if unat chunkEndWithinData < unat chunkStartWithinData
                   \<or> length written + length spare < unat chunkEndWithinData
                then Inl SliceBoundsOutOfRange
                else Inr \<lparr>drData = Some (drop (unat chunkStartWithinData)
                                           (take (unat chunkEndWithinData) (written @ spare))),
                          drErr = None\<rparr>)"

section \<open>finished\<close>




section \<open>needsOverdrive\<close>

fun needsOverdrivePiece :: "pieceDownload list \<Rightarrow> bool \<Rightarrow> time \<Rightarrow> bool \<times> time" where
  "needsOverdrivePiece [] launchedWithoutFail latestReturn = (launchedWithoutFail, latestReturn)"
| "needsOverdrivePiece (pd # pds) launchedWithoutFail latestReturn =
     (if launched pd \<and> \<not> failed pd
      then needsOverdrivePiece pds True
             (if \<not> completed pd \<and> latestReturn < expectedCompletionTime pd
              then expectedCompletionTime pd else latestReturn)
      else needsOverdrivePiece pds launchedWithoutFail latestReturn)"

fun needsOverdriveLoop :: "pieceDownload list list \<Rightarrow> nat \<Rightarrow> time \<Rightarrow> nat \<times> time" where
  "needsOverdriveLoop [] numLWF latestReturn = (numLWF, latestReturn)"
| "needsOverdriveLoop (piece # pieces) numLWF latestReturn =
     (case needsOverdrivePiece piece False latestReturn of
        (launchedWithoutFail, latestReturn') \<Rightarrow>
          needsOverdriveLoop pieces (if launchedWithoutFail then numLWF + 1 else numLWF) latestReturn')"

definition needsOverdrive ::
  "time \<Rightarrow> projectChunkWorkerSet \<Rightarrow> projectDownloadChunk \<Rightarrow> duration \<times> bool" where
  "needsOverdrive now ws pdc =
     (case needsOverdriveLoop (availablePieces pdc) 0 0 of
        (numLWF, latestReturn) \<Rightarrow>
          if int numLWF < MinPieces (staticErasureCoder ws) then (0, True)
          else
            let untilLatest = time_Until now latestReturn
            in if untilLatest \<le> 0 then (0, True)
               else (duration_add untilLatest (Millisecond * 50), False))"

section \<open>threadedCollectAndOverdrivePieces\<close>




section \<open>managedDownload\<close>

text \<open>
  \<open>launchWorker\<close> waits on channels and enqueues into the read queue, which is declared
  outside the covered sources; here it is the parameter \<open>launchWorker\<close>, from the
  download state to the updated state or an error. The outcome of \<open>managedDownload\<close>
  records, beside the returned value, whether the download state was built and how many
  times \<open>launchWorker\<close> was called.
\<close>

datatype managedDownloadResult =
    MDPanic go_panic
  | MDError download_error
  | MDLaunched projectDownloadChunk

record managedDownloadOutcome =
  mdResult :: managedDownloadResult
  mdStateBuilt :: bool
  mdLaunchCalls :: nat

fun launchInitialWorkers ::
  "(projectDownloadChunk \<Rightarrow> download_error + projectDownloadChunk) \<Rightarrow> nat
    \<Rightarrow> projectDownloadChunk \<Rightarrow> nat \<Rightarrow> managedDownloadOutcome" where
  "launchInitialWorkers launchWorker 0 pdc calls =
     \<lparr>mdResult = MDLaunched pdc, mdStateBuilt = True, mdLaunchCalls = calls\<rparr>"
| "launchInitialWorkers launchWorker (Suc k) pdc calls =
     (case launchWorker pdc of
        Inl err \<Rightarrow> \<lparr>mdResult = MDError (ErrNotEnoughWorkersToKickOff err),
                    mdStateBuilt = True, mdLaunchCalls = Suc calls\<rparr>
      | Inr pdc' \<Rightarrow> launchInitialWorkers launchWorker k pdc' (Suc calls))"

definition managedDownload ::
  "(projectDownloadChunk \<Rightarrow> download_error + projectDownloadChunk) \<Rightarrow> projectChunkWorkerSet
    \<Rightarrow> nat \<Rightarrow> u64 \<Rightarrow> u64 \<Rightarrow> managedDownloadOutcome" where
  "managedDownload launchWorker pcws price offset len =
     (let ec = staticErasureCoder pcws
      in if staticMasterKeyOverhead pcws \<noteq> 0
            \<and> (offset \<noteq> 0 \<or> len \<noteq> SectorSize * uint64_of_int (MinPieces ec))
         then \<lparr>mdResult = MDError ErrEncryptionOverhead, mdStateBuilt = False, mdLaunchCalls = 0\<rparr>
         else
           (case getPieceOffsetAndLen ec offset len of
              Inl p \<Rightarrow> \<lparr>mdResult = MDPanic p, mdStateBuilt = False, mdLaunchCalls = 0\<rparr>
            | Inr (pieceOffset', pieceLength') \<Rightarrow>
                if NumPieces ec < 0
                then \<lparr>mdResult = MDPanic NegativeLen, mdStateBuilt = False, mdLaunchCalls = 0\<rparr>
                else
                  launchInitialWorkers launchWorker (nat (MinPieces ec))
                    \<lparr>chunkLength = len, chunkOffset = offset, pricePerMS = price,
                     pieceLength = pieceLength', pieceOffset = pieceOffset',
                     availablePieces = replicate (nat (NumPieces ec)) [],
                     workersConsidered = {},
                     dataPieces = replicate (nat (NumPieces ec)) None\<rparr> 0))"

section \<open>HasSector job queue (callAddWithEstimate, callNext, managedHasSector)\<close>

type_synonym JobTime = "duration list"

record ResolveTime =
  rtStart :: time
  rtTimes :: JobTime

text \<open>\<open>jt[len(jt)-1]\<close> panics on an empty \<open>JobTime\<close>.\<close>

definition JobTime_Max :: "JobTime \<Rightarrow> go_panic + duration" where
  "JobTime_Max jt = (if jt = [] then Inl IndexOutOfRange else Inr (last jt))"

definition JobTime_ResolveTime :: "JobTime \<Rightarrow> time \<Rightarrow> ResolveTime" where
  "JobTime_ResolveTime jt start = \<lparr>rtStart = start, rtTimes = jt\<rparr>"

fun firstUnpassed :: "duration \<Rightarrow> duration list \<Rightarrow> nat \<Rightarrow> (duration \<times> nat) option" where
  "firstUnpassed passedTime [] i = None"
| "firstUnpassed passedTime (d # ds) i =
     (if passedTime < d then Some (d, i) else firstUnpassed passedTime ds (Suc i))"

definition ResolveTime_time :: "time \<Rightarrow> ResolveTime \<Rightarrow> time \<times> nat" where
  "ResolveTime_time now rt =
     (if rtTimes rt = [] then (0, 0)
      else case firstUnpassed (time_Since now (rtStart rt)) (rtTimes rt) 0 of
             Some (d, i) \<Rightarrow> (rtStart rt + d, i)
           | None \<Rightarrow> (rtStart rt + last (rtTimes rt), length (rtTimes rt) - 1))"

record jobHasSector =
  staticSectors :: "hash list"
  externJobStartTime :: time

record jobHasSectorBatch =
  staticJobs :: "jobHasSector list"

text \<open>
  Modelled from the spec: the generic queue \<open>jobGenericQueue\<close> embedded in the HasSector
  queue, with its \<open>add\<close> and \<open>callNext\<close>, is not among the covered sources. The spec
  describes it as a FIFO of pending jobs whose cool-down ends by time and during which
  submitted jobs are rejected immediately: \<open>jobs\<close> is the FIFO, \<open>cooldownUntil\<close> the end
  of the cool-down. The field \<open>expectedJobTime\<close> is what the distribution tracker (also
  outside the covered sources) currently answers for the seven percentiles.
\<close>

record jobHasSectorQueue =
  expectedJobTime :: JobTime
  jobs :: "jobHasSector list"
  cooldownUntil :: time

text \<open>Modelled from the spec: \<open>jobGenericQueue.add\<close>, rejecting during the cool-down.\<close>

definition add :: "time \<Rightarrow> jobHasSectorQueue \<Rightarrow> jobHasSector \<Rightarrow> bool \<times> jobHasSectorQueue" where
  "add now jq j =
     (if now < cooldownUntil jq then (False, jq) else (True, jq\<lparr>jobs := jobs jq @ [j]\<rparr>))"

text \<open>Modelled from the spec: \<open>jobGenericQueue.callNext\<close>, taking the oldest pending job.\<close>

definition genericCallNext :: "jobHasSectorQueue \<Rightarrow> jobHasSector option \<times> jobHasSectorQueue" where
  "genericCallNext jq =
     (case jobs jq of [] \<Rightarrow> (None, jq) | j # js \<Rightarrow> (Some j, jq\<lparr>jobs := js\<rparr>))"

datatype queue_error = ErrEstimateAboveMax | ErrUnableToAddJob

definition callAddWithEstimate ::
  "time \<Rightarrow> jobHasSectorQueue \<Rightarrow> jobHasSector \<Rightarrow> duration
    \<Rightarrow> go_panic + ((queue_error + ResolveTime) \<times> jobHasSectorQueue)" where
  "callAddWithEstimate now jq j maxEstimate =
     (let estimate = expectedJobTime jq
      in case JobTime_Max estimate of
           Inl p \<Rightarrow> Inl p
         | Inr m \<Rightarrow>
             if m > maxEstimate then Inr (Inl ErrEstimateAboveMax, jq)
             else
               (case add now jq (j\<lparr>externJobStartTime := now\<rparr>) of
                  (False, jq') \<Rightarrow> Inr (Inl ErrUnableToAddJob, jq')
                | (True, jq') \<Rightarrow> Inr (Inr (JobTime_ResolveTime estimate now), jq')))"

definition hasSectorBatchSize :: nat where
  "hasSectorBatchSize = 13"

function callNextLoop ::
  "jobHasSectorQueue \<Rightarrow> jobHasSector list \<Rightarrow> jobHasSector list \<times> jobHasSectorQueue" where
  "callNextLoop jq batch =
     (if length batch \<ge> hasSectorBatchSize then (batch, jq)
      else case genericCallNext jq of
             (None, jq') \<Rightarrow> (batch, jq')
           | (Some j, jq') \<Rightarrow> callNextLoop jq' (batch @ [j]))"
  by pat_completeness auto
termination
  by (relation "measure (\<lambda>(jq, batch). hasSectorBatchSize - length batch)") auto

declare callNextLoop.simps [simp del]

definition callNext :: "jobHasSectorQueue \<Rightarrow> jobHasSectorBatch option \<times> jobHasSectorQueue" where
  "callNext jq =
     (case callNextLoop jq [] of
        (batch, jq') \<Rightarrow> if batch = [] then (None, jq') else (Some \<lparr>staticJobs = batch\<rparr>, jq'))"

text \<open>
  The host round trip \<open>managedExecuteProgram\<close> is declared outside the covered sources:
  it is the parameter \<open>exec\<close>, from the program (one HasSector instruction per root) to
  the responses or an error. A response carries an optional error and an output.
\<close>

datatype host_error = HostError

record programResponse =
  respError :: "host_error option"
  respOutput :: bytes

datatype hasSector_error =
    ErrExecuteProgram host_error
  | ErrOutput host_error
  | ErrInvalidNumberOfResponses

datatype 'a hasSector_result = HSOk 'a | HSErr hasSector_error | HSPanic go_panic

fun parseResponses :: "programResponse list \<Rightarrow> bool list \<Rightarrow> bool list hasSector_result" where
  "parseResponses [] hasSectors = HSOk hasSectors"
| "parseResponses (resp # resps) hasSectors =
     (case respError resp of
        Some e \<Rightarrow> HSErr (ErrOutput e)
      | None \<Rightarrow>
          (case respOutput resp of
             [] \<Rightarrow> HSPanic IndexOutOfRange
           | b # bs \<Rightarrow> parseResponses resps (hasSectors @ [b = 1])))"

fun sliceResults ::
  "jobHasSector list \<Rightarrow> bool list \<Rightarrow> bool list list \<Rightarrow> bool list list hasSector_result" where
  "sliceResults [] hasSectors results = HSOk results"
| "sliceResults (hsj # hsjs) hasSectors results =
     (if length (staticSectors hsj) > length hasSectors then HSPanic SliceBoundsOutOfRange
      else sliceResults hsjs (drop (length (staticSectors hsj)) hasSectors)
             (results @ [take (length (staticSectors hsj)) hasSectors]))"

definition managedHasSector ::
  "(hash list \<Rightarrow> host_error + programResponse list) \<Rightarrow> jobHasSectorBatch
    \<Rightarrow> bool list list hasSector_result" where
  "managedHasSector exec j =
     (if staticJobs j = [] then HSOk []
      else
        let program = concat (map staticSectors (staticJobs j))
        in case exec program of
             Inl err \<Rightarrow> HSErr (ErrExecuteProgram err)
           | Inr responses \<Rightarrow>
               (case parseResponses responses [] of
                  HSErr e \<Rightarrow> HSErr e
                | HSPanic p \<Rightarrow> HSPanic p
                | HSOk hasSectors \<Rightarrow>
                    if length responses \<noteq> length program then HSErr ErrInvalidNumberOfResponses
                    else sliceResults (staticJobs j) hasSectors []))"

record jobHasSectorResponse =
  staticAvailables :: "bool list"
  hsStaticErr :: "hasSector_error option"

text \<open>
  \<open>callExecute\<close> of a batch: the responses sent, one per job in the batch's order. An
  empty batch is logged and nothing is sent.
\<close>

definition callExecute ::
  "(hash list \<Rightarrow> host_error + programResponse list) \<Rightarrow> jobHasSectorBatch
    \<Rightarrow> go_panic + jobHasSectorResponse list" where
  "callExecute exec j =
     (if staticJobs j = [] then Inr []
      else case managedHasSector exec j of
             HSPanic p \<Rightarrow> Inl p
           | HSErr err \<Rightarrow>
               Inr (map (\<lambda>hsj. \<lparr>staticAvailables = [], hsStaticErr = Some err\<rparr>) (staticJobs j))
           | HSOk availables \<Rightarrow>
               if length availables < length (staticJobs j) then Inl IndexOutOfRange
               else Inr (map (\<lambda>i. \<lparr>staticAvailables = availables ! i, hsStaticErr = None\<rparr>)
                          [0..<length (staticJobs j)]))"

text \<open>
  Modelled from the spec: the host's side of \<open>HasSector{roots} \<rightarrow> {present}\<close> is not part
  of the sources. A host that stores the sectors \<open>present\<close> answers every instruction of a
  program with the byte 1 or 0 for its root.
\<close>

definition hostHasSector :: "(hash \<Rightarrow> bool) \<Rightarrow> hash list \<Rightarrow> host_error + programResponse list" where
  "hostHasSector present program =
     Inr (map (\<lambda>root. \<lparr>respError = None, respOutput = [if present root then 1 else 0]\<rparr>) program)"

section \<open>findBestWorker\<close>

text \<open>The worker ranks; the source declares them as untyped integer variables.\<close>

definition workerRankErr :: nat where
  "workerRankErr = 0"

definition workerRankUnlaunchedPiece :: nat where
  "workerRankUnlaunchedPiece = 1"

definition workerRankLaunchedPiece :: nat where
  "workerRankLaunchedPiece = 2"

definition workerRankActivePiece :: nat where
  "workerRankActivePiece = 3"

definition workerRankLate :: nat where
  "workerRankLate = 4"

definition MaxUint64 :: nat where
  "MaxUint64 = 18446744073709551615"

text \<open>
  The cost-adjusted read time, as \<open>findBestWorker\<close> computes it in two places: a negative
  estimate counts as 0; the cost divided by the price per millisecond and worker is the
  penalty (\<open>Currency.Div\<close> panics on a zero divisor, \<open>Uint64()\<close> fails above
  \<open>MaxUint64\<close>); the sum saturates at \<open>MaxInt64\<close>.
\<close>

definition adjustedReadTime :: "duration \<Rightarrow> nat \<Rightarrow> nat \<Rightarrow> go_panic + duration" where
  "adjustedReadTime readTime0 expectedRSCompletionCost pricePerMSPerWorker =
     (let readTime = (if readTime0 < 0 then 0 else readTime0)
      in if pricePerMSPerWorker = 0 then Inl DivideByZero
         else
           let rsPricePenalty = expectedRSCompletionCost div pricePerMSPerWorker
           in if rsPricePenalty > MaxUint64 \<or> int rsPricePenalty > MaxInt64 then Inr MaxInt64
              else if readTime > MaxInt64 - int rsPricePenalty then Inr MaxInt64
              else Inr (readTime + int rsPricePenalty))"

text \<open>
  The loop over the unresolved workers; its state is \<open>bestUnresolvedDuration\<close>,
  \<open>bestWorkerLate\<close> and \<open>bestUnresolvedWaitTime\<close>. One reading \<open>now\<close> of the clock
  stands for the calls of \<open>time.Until\<close> and \<open>time.Now\<close> of one run.
\<close>

fun unresolvedLoop ::
  "time \<Rightarrow> u64 \<Rightarrow> nat \<Rightarrow> pcwsUnresolvedWorker list \<Rightarrow> duration \<times> bool \<times> duration
    \<Rightarrow> go_panic + (duration \<times> bool \<times> duration)" where
  "unresolvedLoop now pl price [] st = Inr st"
| "unresolvedLoop now pl price (uw # uws) (bestUnresolvedDuration, bestWorkerLate, bestUnresolvedWaitTime) =
     (let hasSectorTime0 = time_Until now (staticExpectedCompletionTime uw);
          hasSectorTime = (if hasSectorTime0 < 0 then 0 else hasSectorTime0)
      in case adjustedReadTime (callExpectedJobTime (staticWorker uw) pl)
                (callExpectedJobCost (staticWorker uw) pl) price of
           Inl p \<Rightarrow> Inl p
         | Inr readTime \<Rightarrow>
             let adjustedTotalDuration = duration_add hasSectorTime readTime;
                 betterLateStatus = (bestWorkerLate \<and> hasSectorTime > 0);
                 betterDuration = (adjustedTotalDuration < bestUnresolvedDuration)
             in unresolvedLoop now pl price uws
                  (if betterLateStatus \<or> betterDuration then adjustedTotalDuration
                   else bestUnresolvedDuration,
                   if hasSectorTime > 0 then False else bestWorkerLate,
                   if hasSectorTime > 0 \<and> betterDuration then hasSectorTime
                   else bestUnresolvedWaitTime))"

text \<open>
  The first pass over the pieces. Per piece the flags \<open>unlaunchedWorkerAvailable\<close>,
  \<open>launchedWithoutFail\<close>, \<open>unlaunchedPiece\<close>, \<open>pieceHasLateWorkers\<close> and
  \<open>pieceHasActiveWorkers\<close>; across the pieces \<open>piecesAvailableToLaunch\<close>,
  \<open>unlaunchedWorkersAvailable\<close>, \<open>unlaunchedPieces\<close>, \<open>inactivePieces\<close> and the set of
  late workers' keys.
\<close>

record pieceFlags =
  pfUnlaunchedWorkerAvailable :: bool
  pfLaunchedWithoutFail :: bool
  pfUnlaunchedPiece :: bool
  pfPieceHasLateWorkers :: bool
  pfPieceHasActiveWorkers :: bool

record scanFlags =
  sfPiecesAvailableToLaunch :: nat
  sfUnlaunchedWorkersAvailable :: bool
  sfUnlaunchedPieces :: bool
  sfInactivePieces :: bool
  sfLateWorkers :: "string set"

fun scanPiece :: "time \<Rightarrow> pieceDownload list \<Rightarrow> pieceFlags \<Rightarrow> bool \<Rightarrow> string set
    \<Rightarrow> pieceFlags \<times> bool \<times> string set" where
  "scanPiece now [] pf unlaunchedWorkersAvailable lateWorkers =
     (pf, unlaunchedWorkersAvailable, lateWorkers)"
| "scanPiece now (pd # pds) pf unlaunchedWorkersAvailable lateWorkers =
     (let isLate = (launched pd \<and> (failed pd \<or> expectedCompletionTime pd < now))
      in scanPiece now pds
           \<lparr>pfUnlaunchedWorkerAvailable =
              (if \<not> launched pd then True else pfUnlaunchedWorkerAvailable pf),
            pfLaunchedWithoutFail =
              (if launched pd \<and> \<not> failed pd then True else pfLaunchedWithoutFail pf),
            pfUnlaunchedPiece =
              (if launched pd \<and> \<not> failed pd then False else pfUnlaunchedPiece pf),
            pfPieceHasLateWorkers = (if isLate then True else pfPieceHasLateWorkers pf),
            pfPieceHasActiveWorkers =
              (if \<not> isLate \<and> launched pd then True else pfPieceHasActiveWorkers pf)\<rparr>
           (if \<not> launched pd then True else unlaunchedWorkersAvailable)
           (if isLate then insert (staticHostPubKeyStr (pdWorker pd)) lateWorkers
            else lateWorkers))"

fun scanPieces :: "time \<Rightarrow> pieceDownload list list \<Rightarrow> scanFlags \<Rightarrow> scanFlags" where
  "scanPieces now [] sf = sf"
| "scanPieces now (activePiece # pieces) sf =
     (case scanPiece now activePiece
             \<lparr>pfUnlaunchedWorkerAvailable = False, pfLaunchedWithoutFail = False,
              pfUnlaunchedPiece = True, pfPieceHasLateWorkers = False,
              pfPieceHasActiveWorkers = False\<rparr>
             (sfUnlaunchedWorkersAvailable sf) (sfLateWorkers sf) of
        (pf, unlaunchedWorkersAvailable, lateWorkers) \<Rightarrow>
          scanPieces now pieces
            \<lparr>sfPiecesAvailableToLaunch =
               (if pfLaunchedWithoutFail pf \<or> pfUnlaunchedWorkerAvailable pf
                then sfPiecesAvailableToLaunch sf + 1 else sfPiecesAvailableToLaunch sf),
             sfUnlaunchedWorkersAvailable = unlaunchedWorkersAvailable,
             sfUnlaunchedPieces = (if pfUnlaunchedPiece pf then True else sfUnlaunchedPieces sf),
             sfInactivePieces =
               (if pfPieceHasLateWorkers pf \<and> \<not> pfPieceHasActiveWorkers pf then True
                else sfInactivePieces sf),
             sfLateWorkers = lateWorkers\<rparr>)"

text \<open>
  The selection pass. Its first inner loop reads \<open>pieceCompleted\<close>, which starts false
  and is assigned only inside the branch that tests it: the loop is written as in the
  source, with state \<open>(pieceCompleted, pieceActive, pieceLaunched)\<close>.
\<close>

fun pieceStatus :: "time \<Rightarrow> pieceDownload list \<Rightarrow> bool \<times> bool \<times> bool \<Rightarrow> bool \<times> bool \<times> bool" where
  "pieceStatus now [] st = st"
| "pieceStatus now (pd # pds) (pieceCompleted, pieceActive, pieceLaunched) =
     (if pieceCompleted then (True, pieceActive, pieceLaunched)
      else pieceStatus now pds
             (pieceCompleted,
              if launched pd \<and> now < expectedCompletionTime pd then True else pieceActive,
              if launched pd then True else pieceLaunched))"

record bestWorker =
  bestKnownRank :: nat
  bestKnownDuration :: duration
  bestResolvedWorker :: "worker option"
  bestPieceIndex :: u64
  bestWorkerResolved :: bool

text \<open>
  The loop over the downloads of one piece; \<open>i\<close> is the loop index of the
  \<open>range activePiece\<close>, which the source stores as \<open>bestPieceIndex\<close>.
\<close>

fun selectWorker :: "u64 \<Rightarrow> nat \<Rightarrow> string set \<Rightarrow> bool \<Rightarrow> bool \<Rightarrow> nat \<Rightarrow> pieceDownload list
    \<Rightarrow> bestWorker \<Rightarrow> go_panic + bestWorker" where
  "selectWorker pl price lateWorkers pieceActive pieceLaunched i [] best = Inr best"
| "selectWorker pl price lateWorkers pieceActive pieceLaunched i (pd # pds) best =
     (let isLate = (staticHostPubKeyStr (pdWorker pd) \<in> lateWorkers)
      in if bestKnownRank best < workerRankLate \<and> isLate
         then selectWorker pl price lateWorkers pieceActive pieceLaunched (Suc i) pds best
         else
           (case adjustedReadTime (callExpectedJobTime (pdWorker pd) pl)
                   (callExpectedJobCost (pdWorker pd) pl) price of
              Inl p \<Rightarrow> Inl p
            | Inr readTime \<Rightarrow>
                if bestKnownDuration best < readTime
                then selectWorker pl price lateWorkers pieceActive pieceLaunched (Suc i) pds best
                else selectWorker pl price lateWorkers pieceActive pieceLaunched (Suc i) pds
                       \<lparr>bestKnownRank =
                          (if isLate then workerRankLate
                           else if pieceActive then workerRankActivePiece
                           else if pieceLaunched then workerRankLaunchedPiece
                           else workerRankUnlaunchedPiece),
                        bestKnownDuration = readTime,
                        bestResolvedWorker = Some (pdWorker pd),
                        bestPieceIndex = of_nat i,
                        bestWorkerResolved = True\<rparr>))"

fun selectPieces :: "time \<Rightarrow> u64 \<Rightarrow> nat \<Rightarrow> string set \<Rightarrow> pieceDownload list list \<Rightarrow> bestWorker
    \<Rightarrow> go_panic + bestWorker" where
  "selectPieces now pl price lateWorkers [] best = Inr best"
| "selectPieces now pl price lateWorkers (activePiece # pieces) best =
     (case pieceStatus now activePiece (False, False, False) of
        (pieceCompleted, pieceActive, pieceLaunched) \<Rightarrow>
          if pieceCompleted then selectPieces now pl price lateWorkers pieces best
          else if bestKnownRank best < workerRankLaunchedPiece \<and> pieceLaunched
          then selectPieces now pl price lateWorkers pieces best
          else if bestKnownRank best < workerRankActivePiece \<and> pieceActive
          then selectPieces now pl price lateWorkers pieces best
          else
            (case selectWorker pl price lateWorkers pieceActive pieceLaunched 0 activePiece best of
               Inl p \<Rightarrow> Inl p
             | Inr best' \<Rightarrow> selectPieces now pl price lateWorkers pieces best'))"

text \<open>
  The result of \<open>findBestWorker\<close>: the worker (or nil), the piece index, the time to
  sleep, whether a wake channel is returned, and the error (or nil).
\<close>

record findBestWorkerResult =
  fbwWorker :: "worker option"
  fbwPieceIndex :: u64
  fbwSleep :: duration
  fbwWakeChan :: bool
  fbwErr :: "download_error option"

definition findBestWorker ::
  "time \<Rightarrow> projectChunkWorkerSet \<Rightarrow> projectDownloadChunk \<Rightarrow> go_panic + findBestWorkerResult" where
  "findBestWorker now ws pdc =
     (let pricePerMSPerWorker =
            pricePerMS pdc * unat (uint64_of_int (MinPieces (staticErasureCoder ws)));
          unresolved = unresolvedWorkers ws;
          nullDuration = MaxInt64
      in case unresolvedLoop now (pieceLength pdc) pricePerMSPerWorker unresolved
                (nullDuration, True, 0) of
           Inl p \<Rightarrow> Inl p
         | Inr (bestUnresolvedDuration, bestWorkerLate, bestUnresolvedWaitTime) \<Rightarrow>
             let sf = scanPieces now (availablePieces pdc)
                        \<lparr>sfPiecesAvailableToLaunch = 0, sfUnlaunchedWorkersAvailable = False,
                         sfUnlaunchedPieces = False, sfInactivePieces = False,
                         sfLateWorkers = {}\<rparr>;
                 potentialPieces = int (sfPiecesAvailableToLaunch sf) + int (length unresolved)
             in if potentialPieces < MinPieces (staticErasureCoder ws)
                then Inr \<lparr>fbwWorker = None, fbwPieceIndex = 0, fbwSleep = 0, fbwWakeChan = False,
                          fbwErr = Some ErrNotEnoughPotentialWorkers\<rparr>
                else if \<not> sfUnlaunchedWorkersAvailable sf \<and> length unresolved = 0
                then Inr \<lparr>fbwWorker = None, fbwPieceIndex = 0, fbwSleep = 0, fbwWakeChan = False,
                          fbwErr = None\<rparr>
                else
                  let best0 =
                        (if length unresolved > 0
                         then \<lparr>bestKnownRank =
                                 (if sfUnlaunchedPieces sf then workerRankUnlaunchedPiece
                                  else if sfInactivePieces sf then workerRankLaunchedPiece
                                  else workerRankActivePiece),
                               bestKnownDuration = bestUnresolvedDuration,
                               bestResolvedWorker = None, bestPieceIndex = 0,
                               bestWorkerResolved = False\<rparr>
                         else \<lparr>bestKnownRank = workerRankLate, bestKnownDuration = nullDuration,
                               bestResolvedWorker = None, bestPieceIndex = 0,
                               bestWorkerResolved = True\<rparr>)
                  in case selectPieces now (pieceLength pdc) pricePerMSPerWorker
                            (sfLateWorkers sf) (availablePieces pdc) best0 of
                       Inl p \<Rightarrow> Inl p
                     | Inr best \<Rightarrow>
                         if \<not> bestWorkerResolved best
                         then Inr \<lparr>fbwWorker = None, fbwPieceIndex = 0,
                                   fbwSleep = (if bestWorkerLate then 0 else bestUnresolvedWaitTime),
                                   fbwWakeChan = True, fbwErr = None\<rparr>
                         else Inr \<lparr>fbwWorker = bestResolvedWorker best,
                                   fbwPieceIndex = bestPieceIndex best, fbwSleep = 0,
                                   fbwWakeChan = False, fbwErr = None\<rparr>)"

section \<open>Reference notions and sample inputs\<close>

text \<open>
  The quantities the progress and overdrive properties speak about, written from their
  descriptions: the number of pieces with a launched, not failed download, and the latest
  expected completion time among the downloads that are launched, not failed and not
  completed (the zero time when there is none).
\<close>

definition numLaunchedNotFailed :: "projectDownloadChunk \<Rightarrow> nat" where
  "numLaunchedNotFailed pdc =
     length (filter (\<lambda>piece. \<exists>pd\<in>set piece. launched pd \<and> \<not> failed pd) (availablePieces pdc))"

definition latestOutstanding :: "projectDownloadChunk \<Rightarrow> time" where
  "latestOutstanding pdc =
     fold max (map expectedCompletionTime
                (filter (\<lambda>pd. launched pd \<and> \<not> failed pd \<and> \<not> completed pd)
                   (concat (availablePieces pdc)))) 0"

text \<open>Cutting a vector into consecutive slices of the given lengths, by position.\<close>

fun positionSlices :: "nat list \<Rightarrow> 'a list \<Rightarrow> 'a list list" where
  "positionSlices [] bits = []"
| "positionSlices (n # ns) bits = take n bits # positionSlices ns (drop n bits)"

text \<open>A 1-of-1 worker set and the download of the first 64 bytes of its chunk.\<close>

definition ws_1_1 :: projectChunkWorkerSet where
  "ws_1_1 = \<lparr>staticErasureCoder =
       \<lparr>MinPieces = 1, NumPieces = 1, partialSegmentSize = 64, partialsSupported = True\<rparr>,
     staticMasterKeyOverhead = 0, staticPieceRoots = [[1]], unresolvedWorkers = []\<rparr>"

definition pdc_first_segment :: projectDownloadChunk where
  "pdc_first_segment = \<lparr>chunkLength = 64, chunkOffset = 0, pricePerMS = 1, pieceLength = 64,
     pieceOffset = 0, availablePieces = [[]], workersConsidered = {},
     dataPieces = [Some (replicate 64 7)]\<rparr>"

text \<open>Two HasSector queues with the estimate 10 ns, 20 ns: one on cool-down until 100, one idle.\<close>

definition jq_on_cooldown :: jobHasSectorQueue where
  "jq_on_cooldown = \<lparr>expectedJobTime = [10, 20], jobs = [], cooldownUntil = 100\<rparr>"

definition jq_idle :: jobHasSectorQueue where
  "jq_idle = \<lparr>expectedJobTime = [10, 20], jobs = [], cooldownUntil = 0\<rparr>"

definition job_one_root :: jobHasSector where
  "job_one_root = \<lparr>staticSectors = [[1]], externJobStartTime = 0\<rparr>"

text \<open>Two workers, a two-piece worker set and a download state with one download per piece.\<close>

definition worker_A :: worker where
  "worker_A = \<lparr>staticHostPubKeyStr = ''A'', callExpectedJobTime = (\<lambda>n. 20), callExpectedJobCost = (\<lambda>n. 0)\<rparr>"

definition worker_B :: worker where
  "worker_B = \<lparr>staticHostPubKeyStr = ''B'', callExpectedJobTime = (\<lambda>n. 10), callExpectedJobCost = (\<lambda>n. 0)\<rparr>"

definition ws_two_roots :: projectChunkWorkerSet where
  "ws_two_roots = \<lparr>staticErasureCoder =
       \<lparr>MinPieces = 1, NumPieces = 2, partialSegmentSize = 64, partialsSupported = True\<rparr>,
     staticMasterKeyOverhead = 0, staticPieceRoots = [[1], [2]], unresolvedWorkers = []\<rparr>"

definition pd_A_launched :: pieceDownload where
  "pd_A_launched = \<lparr>completed = False, failed = False, launched = True,
     expectedCompletionTime = 1000, pdWorker = worker_A\<rparr>"

definition pd_B_unlaunched :: pieceDownload where
  "pd_B_unlaunched = \<lparr>completed = False, failed = False, launched = False,
     expectedCompletionTime = 0, pdWorker = worker_B\<rparr>"

definition pdc_two :: projectDownloadChunk where
  "pdc_two = \<lparr>chunkLength = 64, chunkOffset = 0, pricePerMS = 1, pieceLength = 64,
     pieceOffset = 0, availablePieces = [[pd_A_launched], [pd_B_unlaunched]],
     workersConsidered = {}, dataPieces = [None, None]\<rparr>"

definition jrr_unmatched :: jobReadResponse where
  "jrr_unmatched = \<lparr>staticData = [5], staticErr = None, staticSectorRoot = [9],
     jrrWorker = worker_A\<rparr>"

text \<open>A 2-of-2 worker set over two piece roots, without unresolved workers.\<close>

definition ws_need_two :: projectChunkWorkerSet where
  "ws_need_two = \<lparr>staticErasureCoder =
       \<lparr>MinPieces = 2, NumPieces = 2, partialSegmentSize = 64, partialsSupported = True\<rparr>,
     staticMasterKeyOverhead = 0, staticPieceRoots = [[1], [2]], unresolvedWorkers = []\<rparr>"


text \<open>A 10-of-30 worker set whose cipher has 16 bytes of overhead per block.\<close>

definition pcws_encrypted :: projectChunkWorkerSet where
  "pcws_encrypted = \<lparr>staticErasureCoder = ec_10_30, staticMasterKeyOverhead = 16,
     staticPieceRoots = [], unresolvedWorkers = []\<rparr>"

text \<open>A batch of two HasSector jobs, of one and of two roots.\<close>

definition job_two_roots :: jobHasSector where
  "job_two_roots = \<lparr>staticSectors = [[2], [1]], externJobStartTime = 0\<rparr>"

definition batch_two_jobs :: jobHasSectorBatch where
  "batch_two_jobs = \<lparr>staticJobs = [job_one_root, job_two_roots]\<rparr>"

text \<open>
  A one-piece download state: worker B has not been launched for the piece, worker A has
  completed it.
\<close>

definition pdc_piece_completed :: projectDownloadChunk where
  "pdc_piece_completed = \<lparr>chunkLength = 64, chunkOffset = 0, pricePerMS = 1, pieceLength = 64,
     pieceOffset = 0,
     availablePieces = [[pd_B_unlaunched, pd_A_launched\<lparr>completed := True\<rparr>]],
     workersConsidered = {}, dataPieces = [Some [5]]\<rparr>"

section \<open>Merkle range proofs (package merkletree)\<close>

text \<open>
  The \<open>hash.Hash\<close> handed to the proof functions, in the two domain-separated uses the
  tree makes of it: the hash of a leaf's bytes and the hash of two child hashes.
\<close>

record hasher =
  leafHash :: "bytes \<Rightarrow> hash"
  nodeHash :: "hash \<Rightarrow> hash \<Rightarrow> hash"

text \<open>
  Modelled from the spec: the type \<open>Stack\<close> with \<open>NewStack\<close>, \<open>Reset\<close>, \<open>AppendNode\<close>,
  \<open>appendNodeAtHeight\<close>, \<open>NumNodes\<close> and \<open>Root\<close> is not among the covered sources. The
  spec describes a stack of subtree roots of a binary Merkle tree, fed with hashes at
  given heights, whose final root is compared with the sector root. The stack is the list
  of its subtree roots with their heights, the most recent (lowest) first. A node appended
  at the height of the top subtree is joined with it into a node one level higher, and so
  on; the root joins all subtrees from the lowest to the highest, the higher subtree being
  the left child. The root of the empty stack is nil.
\<close>

type_synonym Stack = "(nat \<times> hash) list"

definition NewStack :: Stack where
  "NewStack = []"

fun appendNodeAtHeight :: "hasher \<Rightarrow> Stack \<Rightarrow> hash \<Rightarrow> nat \<Rightarrow> Stack" where
  "appendNodeAtHeight h [] node height = [(height, node)]"
| "appendNodeAtHeight h ((ht, topNode) # s) node height =
     (if ht = height then appendNodeAtHeight h s (nodeHash h topNode node) (Suc height)
      else (height, node) # (ht, topNode) # s)"

definition AppendNode :: "hasher \<Rightarrow> Stack \<Rightarrow> hash \<Rightarrow> Stack" where
  "AppendNode h s node = appendNodeAtHeight h s node 0"

definition NumNodes :: "Stack \<Rightarrow> nat" where
  "NumNodes s = length s"

fun Root :: "hasher \<Rightarrow> Stack \<Rightarrow> hash" where
  "Root h [] = []"
| "Root h ((ht, topNode) # s) = foldl (\<lambda>root (ht', node). nodeHash h node root) topNode s"

text \<open>
  An \<open>io.Reader\<close> over bytes held in memory is the list of the bytes not yet read.
  \<open>io.ReadFull(r, leaf)\<close> returns the bytes read, the error and the reader after the
  read: \<open>EOF\<close> when nothing is left, \<open>ErrUnexpectedEOF\<close> after a short read; with an
  empty buffer it reads nothing and reports no error.
\<close>

datatype io_error = EOF | ErrUnexpectedEOF

definition ReadFull :: "bytes \<Rightarrow> nat \<Rightarrow> bytes \<times> io_error option \<times> bytes" where
  "ReadFull rd leafSize =
     (if leafSize = 0 then ([], None, rd)
      else if rd = [] then ([], Some EOF, [])
      else if length rd < leafSize then (rd, Some ErrUnexpectedEOF, [])
      else (take leafSize rd, None, drop leafSize rd))"

text \<open>
  The \<open>SubtreeReader\<close>: its reader and the length of its leaf buffer. Its stack is reset
  at the start of every \<open>NextSubtreeRoot\<close>, so it is local to that call.
\<close>

record SubtreeReader =
  sr_r :: bytes
  sr_leafSize :: nat

fun nextSubtreeLoop :: "hasher \<Rightarrow> nat \<Rightarrow> nat \<Rightarrow> bytes \<Rightarrow> Stack \<Rightarrow> Stack \<times> bytes" where
  "nextSubtreeLoop h leafSize 0 rd s = (s, rd)"
| "nextSubtreeLoop h leafSize (Suc k) rd s =
     (case ReadFull rd leafSize of
        (leaf, err, rd') \<Rightarrow>
          let s' = (if length leaf > 0 then AppendNode h s (leafHash h leaf) else s)
          in if err = Some EOF \<or> err = Some ErrUnexpectedEOF then (s', rd')
             else nextSubtreeLoop h leafSize k rd' s')"

definition NextSubtreeRoot ::
  "hasher \<Rightarrow> SubtreeReader \<Rightarrow> int \<Rightarrow> (io_error + hash) \<times> SubtreeReader" where
  "NextSubtreeRoot h sr n =
     (case nextSubtreeLoop h (sr_leafSize sr) (nat n) (sr_r sr) NewStack of
        (s, rd') \<Rightarrow>
          if NumNodes s = 0 then (Inl EOF, sr\<lparr>sr_r := rd'\<rparr>)
          else (Inr (Root h s), sr\<lparr>sr_r := rd'\<rparr>))"

text \<open>
  \<open>Skip\<close> on a reader without \<open>Seek\<close> discards \<open>len(leaf) * n\<close> bytes with \<open>io.CopyN\<close>,
  which reports \<open>EOF\<close> when the reader ends before that; seeking in an in-memory reader
  leaves the same bytes unread.
\<close>

definition Skip :: "SubtreeReader \<Rightarrow> int \<Rightarrow> io_error option \<times> SubtreeReader" where
  "Skip sr n =
     (let skipSize = sr_leafSize sr * nat n
      in (if length (sr_r sr) < skipSize then Some EOF else None,
          sr\<lparr>sr_r := drop skipSize (sr_r sr)\<rparr>))"

definition NewSubtreeReader :: "bytes \<Rightarrow> nat \<Rightarrow> SubtreeReader" where
  "NewSubtreeReader rd leafSize = \<lparr>sr_r = rd, sr_leafSize = leafSize\<rparr>"

datatype merkle_error = PanicIllegalRange | IOError io_error | ErrInsufficientLeafData

text \<open>
  The first loop of \<open>BuildRangeProof\<close>. Its variable \<open>subtreeSize\<close> runs through
  \<open>2^63, 2^62, \<dots>, 1\<close> and then stays 0; \<open>buildLeft h proofStart k\<close> is the loop at
  \<open>subtreeSize = 2^(k-1)\<close>, and at \<open>k = 0\<close> the loop at \<open>subtreeSize = 0\<close>, which never
  ends while \<open>leafIndex < proofStart\<close> (the value \<open>None\<close>). \<open>proofStart\<close> is the value of
  \<open>uint64(proofStart)\<close>.
\<close>

fun buildLeft :: "hasher \<Rightarrow> nat \<Rightarrow> nat \<Rightarrow> nat \<Rightarrow> SubtreeReader \<Rightarrow> hash list
    \<Rightarrow> (io_error + hash list \<times> SubtreeReader) option" where
  "buildLeft h proofStart 0 leafIndex sr proof =
     (if leafIndex < proofStart then None else Some (Inr (proof, sr)))"
| "buildLeft h proofStart (Suc i) leafIndex sr proof =
     (if leafIndex < proofStart then
        (if proofStart AND 2 ^ i \<noteq> 0 then
           (case NextSubtreeRoot h sr (int (2 ^ i)) of
              (Inl err, sr') \<Rightarrow> Some (Inl err)
            | (Inr root, sr') \<Rightarrow>
                buildLeft h proofStart i (leafIndex + 2 ^ i) sr' (proof @ [root]))
         else buildLeft h proofStart i leafIndex sr proof)
      else Some (Inr (proof, sr)))"

text \<open>
  The second loop, at \<open>subtreeSize = 2^i\<close> while \<open>subtreeSize < 2^63\<close>; \<open>EOF\<close> from the
  hasher ends the proof. (The source also advances \<open>leafIndex\<close> here and never reads it
  again.)
\<close>

function buildRight :: "hasher \<Rightarrow> nat \<Rightarrow> nat \<Rightarrow> SubtreeReader \<Rightarrow> hash list
    \<Rightarrow> io_error + hash list" where
  "buildRight h endMask i sr proof =
     (if i < 63 then
        (if endMask AND 2 ^ i = 0 then
           (case NextSubtreeRoot h sr (int (2 ^ i)) of
              (Inl EOF, sr') \<Rightarrow> Inr proof
            | (Inl err, sr') \<Rightarrow> Inl err
            | (Inr root, sr') \<Rightarrow> buildRight h endMask (Suc i) sr' (proof @ [root]))
         else buildRight h endMask (Suc i) sr proof)
      else Inr proof)"
  by pat_completeness auto
termination
  by (relation "measure (\<lambda>(h, endMask, i, sr, proof). 63 - i)") auto

declare buildRight.simps [simp del]

text \<open>
  \<open>BuildRangeProof\<close>; \<open>proofStart\<close> and \<open>proofEnd\<close> are Go \<open>int\<close>s (below \<open>2^63\<close>). An
  \<open>EOF\<close> from \<open>Skip\<close> is ignored.
\<close>

definition BuildRangeProof :: "hasher \<Rightarrow> int \<Rightarrow> int \<Rightarrow> SubtreeReader
    \<Rightarrow> (merkle_error + hash list) option" where
  "BuildRangeProof h proofStart proofEnd sr =
     (if proofStart < 0 \<or> proofStart > proofEnd \<or> proofStart = proofEnd
      then Some (Inl PanicIllegalRange)
      else
        (case buildLeft h (nat proofStart) 64 0 sr [] of
           None \<Rightarrow> None
         | Some (Inl err) \<Rightarrow> Some (Inl (IOError err))
         | Some (Inr (proof, sr1)) \<Rightarrow>
             (case Skip sr1 (proofEnd - proofStart) of
                (skipErr, sr2) \<Rightarrow>
                  (case buildRight h (nat (proofEnd - 1)) 0 sr2 proof of
                     Inl err \<Rightarrow> Some (Inl (IOError err))
                   | Inr proof' \<Rightarrow> Some (Inr proof')))))"

definition BuildReaderRangeProof :: "hasher \<Rightarrow> bytes \<Rightarrow> nat \<Rightarrow> int \<Rightarrow> int
    \<Rightarrow> (merkle_error + hash list) option" where
  "BuildReaderRangeProof h rd leafSize proofStart proofEnd =
     (if proofStart < 0 \<or> proofStart > proofEnd \<or> proofStart = proofEnd
      then Some (Inl PanicIllegalRange)
      else BuildRangeProof h proofStart proofEnd (NewSubtreeReader rd leafSize))"

text \<open>
  The first loop of \<open>VerifyReaderRangeProof\<close>, for \<open>i\<close> from 63 down to 0 while proof
  hashes are left: \<open>verifyLeft h proofStart (Suc i)\<close> is the loop at \<open>i\<close>, and
  \<open>verifyLeft h proofStart 0\<close> the exit once \<open>i\<close> has wrapped around. The test
  \<open>proofStart & (1 << i)\<close> is made on the 64-bit patterns.
\<close>

fun verifyLeft :: "hasher \<Rightarrow> u64 \<Rightarrow> nat \<Rightarrow> hash list \<Rightarrow> Stack \<Rightarrow> hash list \<times> Stack" where
  "verifyLeft h proofStart 0 proof s = (proof, s)"
| "verifyLeft h proofStart (Suc i) proof s =
     (if length proof > 0 then
        (if proofStart AND push_bit i 1 \<noteq> 0
         then verifyLeft h proofStart i (tl proof) (appendNodeAtHeight h s (hd proof) i)
         else verifyLeft h proofStart i proof s)
      else (proof, s))"

text \<open>
  The loop over the leaves of the range; \<open>k\<close> is the number of leaves still to read, so
  \<open>i = proofEnd - 1\<close> is \<open>k = 1\<close>.
\<close>

fun verifyLeaves :: "hasher \<Rightarrow> nat \<Rightarrow> nat \<Rightarrow> bytes \<Rightarrow> Stack \<Rightarrow> merkle_error + Stack" where
  "verifyLeaves h leafSize 0 rd s = Inr s"
| "verifyLeaves h leafSize (Suc k) rd s =
     (case ReadFull rd leafSize of
        (leaf, err, rd') \<Rightarrow>
          let s' = (if length leaf > 0 then AppendNode h s (leafHash h leaf) else s)
          in if err = Some EOF \<or> err = Some ErrUnexpectedEOF
             then (if k = 0 then Inr s' else Inl ErrInsufficientLeafData)
             else verifyLeaves h leafSize k rd' s')"

text \<open>
  The last loop runs while proof hashes are left, with no bound on the counter \<open>i\<close>, a
  \<open>uint64\<close> that wraps around; \<open>1 << i\<close> is 0 from \<open>i = 64\<close> on. Not returning is the
  value \<open>None\<close>.
\<close>

partial_function (option) verifyRight ::
  "hasher \<Rightarrow> u64 \<Rightarrow> u64 \<Rightarrow> hash list \<Rightarrow> Stack \<Rightarrow> Stack option" where
  "verifyRight h endMask i proof s =
     (if length proof > 0 then
        (if endMask AND push_bit (unat i) 1 \<noteq> 0
         then verifyRight h endMask (i + 1) (tl proof)
                (appendNodeAtHeight h s (hd proof) (unat i))
         else verifyRight h endMask (i + 1) proof s)
      else Some s)"

declare verifyRight.simps [code]

definition VerifyReaderRangeProof :: "hasher \<Rightarrow> bytes \<Rightarrow> nat \<Rightarrow> int \<Rightarrow> int \<Rightarrow> hash list \<Rightarrow> hash
    \<Rightarrow> (merkle_error + bool) option" where
  "VerifyReaderRangeProof h rd leafSize proofStart proofEnd proof root =
     (if proofStart < 0 \<or> proofStart > proofEnd \<or> proofStart = proofEnd
      then Some (Inl PanicIllegalRange)
      else
        (case verifyLeft h (word_of_int proofStart) 64 proof NewStack of
           (proof1, s1) \<Rightarrow>
             (case verifyLeaves h leafSize (nat (proofEnd - proofStart)) rd s1 of
                Inl err \<Rightarrow> Some (Inl err)
              | Inr s2 \<Rightarrow>
                  (case verifyRight h (0 - word_of_int proofEnd) 0 proof1 s2 of
                     None \<Rightarrow> None
                   | Some s3 \<Rightarrow> Some (Inr (Root h s3 = root))))))"

text \<open>
  Modelled from the spec: a sector's leaves and its Merkle root. The sector is cut into
  leaves of \<open>leafSize\<close> bytes, the last one possibly shorter; the root is the root of the
  stack that has been fed every leaf hash in order.
\<close>

fun leavesOf :: "nat \<Rightarrow> bytes \<Rightarrow> bytes list" where
  "leavesOf leafSize rd =
     (if leafSize = 0 \<or> rd = [] then []
      else take leafSize rd # leavesOf leafSize (drop leafSize rd))"

declare leavesOf.simps [simp del]

definition stackOf :: "hasher \<Rightarrow> Stack \<Rightarrow> bytes list \<Rightarrow> Stack" where
  "stackOf h s leaves = foldl (\<lambda>s' leaf. AppendNode h s' (leafHash h leaf)) s leaves"

definition sectorRoot :: "hasher \<Rightarrow> nat \<Rightarrow> bytes \<Rightarrow> hash" where
  "sectorRoot h leafSize sector = Root h (stackOf h NewStack (leavesOf leafSize sector))"

text \<open>The bytes of the leaves \<open>[a, b)\<close> of a sector.\<close>

definition leafRange :: "nat \<Rightarrow> bytes \<Rightarrow> nat \<Rightarrow> nat \<Rightarrow> bytes" where
  "leafRange leafSize sector a b = take ((b - a) * leafSize) (drop (a * leafSize) sector)"

text \<open>The number of leaves a stack stands for: a subtree at height \<open>ht\<close> has \<open>2^ht\<close> leaves.\<close>

definition stackLeaves :: "Stack \<Rightarrow> nat" where
  "stackLeaves s = sum_list (map (\<lambda>e. 2 ^ fst e) s)"

text \<open>
  The hashes a range proof holds for the leaves before \<open>a\<close>: for every bit \<open>i\<close> set in
  \<open>a\<close>, from the highest below \<open>k\<close> down, the root of the \<open>2^i\<close> leaves that follow the
  leaves counted by the higher bits of \<open>a\<close>.
\<close>

fun leftProof :: "hasher \<Rightarrow> bytes list \<Rightarrow> nat \<Rightarrow> nat \<Rightarrow> hash list" where
  "leftProof h leaves a 0 = []"
| "leftProof h leaves a (Suc i) =
     (if bit a i
      then [Root h (stackOf h [] (take (2 ^ i) (drop ((a div 2 ^ Suc i) * 2 ^ Suc i) leaves)))]
      else []) @ leftProof h leaves a i"

text \<open>
  The hashes a range proof holds for the leaves from \<open>b\<close> on. Before the step for bit \<open>i\<close>
  the hasher stands at the leaf \<open>rightPos b i\<close>, the first multiple of \<open>2^i\<close> above
  \<open>b - 1\<close>; for every bit \<open>i\<close> below 63 that is clear in \<open>b - 1\<close> the proof holds the root of
  the next \<open>2^i\<close> leaves (fewer at the end of the sector), until no leaf is left.
\<close>

definition rightPos :: "nat \<Rightarrow> nat \<Rightarrow> nat" where
  "rightPos b i = ((b - 1) div 2 ^ i + 1) * 2 ^ i"

function rightProof :: "hasher \<Rightarrow> bytes list \<Rightarrow> nat \<Rightarrow> nat \<Rightarrow> hash list" where
  "rightProof h leaves b i =
     (if i < 63 then
        (if \<not> bit (b - 1) i then
           (if rightPos b i < length leaves
            then Root h (stackOf h [] (take (2 ^ i) (drop (rightPos b i) leaves)))
                   # rightProof h leaves b (Suc i)
            else [])
         else rightProof h leaves b (Suc i))
      else [])"
  by pat_completeness auto
termination
  by (relation "measure (\<lambda>(h, leaves, b, i). 63 - i)") auto

declare rightProof.simps [simp del]

text \<open>
  Modelled from the spec: the binary Merkle tree over a list of leaves, written as a tree.
  \<open>merkleAt h k leaves\<close> is the root of at most \<open>2^k\<close> leaves: more than \<open>2^(k-1)\<close> leaves
  are split after the first \<open>2^(k-1)\<close>, the left subtree being full. The root of no
  leaves is nil.
\<close>

fun merkleAt :: "hasher \<Rightarrow> nat \<Rightarrow> bytes list \<Rightarrow> hash" where
  "merkleAt h 0 leaves = leafHash h (hd leaves)"
| "merkleAt h (Suc k) leaves =
     (if length leaves \<le> 2 ^ k then merkleAt h k leaves
      else nodeHash h (merkleAt h k (take (2 ^ k) leaves)) (merkleAt h k (drop (2 ^ k) leaves)))"

definition merkleRoot :: "hasher \<Rightarrow> bytes list \<Rightarrow> hash" where
  "merkleRoot h leaves = (if leaves = [] then [] else merkleAt h (length leaves) leaves)"

text \<open>
  A sample hasher that keeps what it hashes (a leaf becomes 0 followed by its bytes, a node
  1 followed by its children), and a sector of seven bytes: with leaves of two bytes it
  has four leaves, the last one short.
\<close>

definition toyHasher :: hasher where
  "toyHasher = \<lparr>leafHash = (\<lambda>leaf. 0 # leaf), nodeHash = (\<lambda>l r. 1 # l @ r)\<rparr>"

definition sector7 :: bytes where
  "sector7 = [11, 12, 13, 14, 15, 16, 17]"

section \<open>Properties of getPieceOffsetAndLen\<close>

text \<open>
  C4. The claim: the piece length is a multiple of the segment size and the piece range
  covers the request. For the 10-of-30 coder and the request offset 0, length 640 (one
  chunk segment), the code divides the chunk termination offset by the segment size, not
  by the number of data pieces: it returns piece length 10, which is no multiple of 64,
  and 10 pieces of 10 bytes cover 100 bytes of the 640 requested.
\<close>

theorem getPieceOffsetAndLen_length_misaligned:
  "getPieceOffsetAndLen ec_10_30 0 640 = Inr (0, 10)
   \<and> (10 :: u64) mod partialSegmentSize ec_10_30 \<noteq> 0
   \<and> ((0 :: u64) + 10) * uint64_of_int (MinPieces ec_10_30) < 0 + 640"
  by (simp add: getPieceOffsetAndLen_def ec_10_30_def SectorSize_def SegmentSize_def
      uint64_of_int_def Let_def)

section \<open>Properties of finalize\<close>

text \<open>
  C3. The claim: finalize asks the erasure coder for
  \<open>pieceOffset \<times> data_pieces + pieceLength \<times> data_pieces\<close> decoded bytes and delivers the
  requested range of them. The code computes the download length from \<open>pieceOffset\<close>
  instead of \<open>pieceLength\<close>. For a 1-of-1 chunk and the request of its first 64 bytes
  (piece offset 0, piece length 64) it asks for 0 bytes, not 64: a coder that answers
  only the count 64 reports its error, and with a coder that writes the count it is given
  into the fresh buffer (no spare capacity) the slice \<open>data[0:64]\<close> of the empty buffer
  panics.
\<close>

theorem finalize_recover_count_from_pieceOffset:
  "finalize (\<lambda>pieces n. if n = 64 then Inr (replicate 64 7, []) else Inl RecoverFailed)
       ws_1_1 pdc_first_segment
     = Inr (fail (ErrRecover RecoverFailed))
   \<and> finalize (\<lambda>pieces n. Inr (take (unat n) (replicate 64 7), [])) ws_1_1 pdc_first_segment
     = Inl SliceBoundsOutOfRange"
  by (simp add: finalize_def ws_1_1_def pdc_first_segment_def uint64_of_int_def Let_def)

section \<open>Properties of handleJobReadResponse\<close>

lemma findPieceIndex_unmatched: "r \<notin> set roots \<Longrightarrow> findPieceIndex r roots i = 0"
  by (induction roots arbitrary: i) auto

text \<open>
  C10. A response whose sector root equals none of the piece roots is attributed to piece
  index 0: on an error every download of piece 0 by the response's worker is marked
  failed; on success the data is stored as piece 0 and those downloads are marked
  completed. (With no piece at all the index 0 is out of range and the code panics.)
\<close>

theorem handleJobReadResponse_unmatched_root:
  assumes "staticSectorRoot jrr \<notin> set (staticPieceRoots ws)"
  shows "handleJobReadResponse ws pdc (Some jrr) =
    (if staticErr jrr \<noteq> None then
       (if availablePieces pdc = [] then Inl IndexOutOfRange
        else Inr (pdc\<lparr>availablePieces := (availablePieces pdc)[0 :=
               map (\<lambda>pd. if staticHostPubKeyStr (pdWorker pd) = staticHostPubKeyStr (jrrWorker jrr)
                          then pd\<lparr>failed := True\<rparr> else pd) (availablePieces pdc ! 0)]\<rparr>))
     else if dataPieces pdc = [] \<or> availablePieces pdc = [] then Inl IndexOutOfRange
     else Inr (pdc\<lparr>dataPieces := (dataPieces pdc)[0 := Some (staticData jrr)],
                  availablePieces := (availablePieces pdc)[0 :=
               map (\<lambda>pd. if staticHostPubKeyStr (pdWorker pd) = staticHostPubKeyStr (jrrWorker jrr)
                          then pd\<lparr>completed := True\<rparr> else pd) (availablePieces pdc ! 0)]\<rparr>))"
  using assms
  by (simp add: handleJobReadResponse_def findPieceIndex_unmatched Let_def markFailed_def markCompleted_def)

theorem handleJobReadResponse_unmatched_root_witness:
  "staticSectorRoot jrr_unmatched \<notin> set (staticPieceRoots ws_two_roots)
   \<and> handleJobReadResponse ws_two_roots pdc_two (Some jrr_unmatched)
       = Inr (pdc_two\<lparr>dataPieces := [Some [5], None],
                      availablePieces := [[pd_A_launched\<lparr>completed := True\<rparr>], [pd_B_unlaunched]]\<rparr>)"
  using handleJobReadResponse_unmatched_root [of jrr_unmatched ws_two_roots pdc_two]
  by (simp add: jrr_unmatched_def ws_two_roots_def pdc_two_def pd_A_launched_def worker_A_def)

section \<open>Properties of finished and of the collection loop\<close>






section \<open>Properties of needsOverdrive\<close>

lemma needsOverdrivePiece_eq:
  "needsOverdrivePiece piece lwf latest =
     (lwf \<or> (\<exists>pd\<in>set piece. launched pd \<and> \<not> failed pd),
      fold max (map expectedCompletionTime
                 (filter (\<lambda>pd. launched pd \<and> \<not> failed pd \<and> \<not> completed pd) piece)) latest)"
  by (induction piece arbitrary: lwf latest) (auto simp: max_def)

lemma needsOverdriveLoop_eq:
  "needsOverdriveLoop pieces n latest =
     (n + length (filter (\<lambda>piece. \<exists>pd\<in>set piece. launched pd \<and> \<not> failed pd) pieces),
      fold max (map expectedCompletionTime
                 (filter (\<lambda>pd. launched pd \<and> \<not> failed pd \<and> \<not> completed pd) (concat pieces))) latest)"
  by (induction pieces arbitrary: n latest) (auto simp: needsOverdrivePiece_eq)

lemma time_Until_le_0: "time_Until now t \<le> 0 \<longleftrightarrow> t \<le> now"
  by (simp add: time_Until_def time_Sub_def MaxInt64_def MinInt64_def)

text \<open>
  C6. \<open>needsOverdrive\<close> returns \<open>(0, true)\<close> when fewer than \<open>MinPieces\<close> pieces have a
  launched, not failed download; \<open>(0, true)\<close> when the latest expected completion time
  among the launched, not failed, not completed downloads is not after now; and otherwise
  the time until that latest completion plus 50 ms, with \<open>false\<close>.
\<close>

theorem needsOverdrive_cases:
  "needsOverdrive now ws pdc =
     (if int (numLaunchedNotFailed pdc) < MinPieces (staticErasureCoder ws) then (0, True)
      else if latestOutstanding pdc \<le> now then (0, True)
      else (duration_add (time_Until now (latestOutstanding pdc)) (50 * Millisecond), False))"
  by (simp add: needsOverdrive_def needsOverdriveLoop_eq numLaunchedNotFailed_def
      latestOutstanding_def time_Until_le_0 Let_def mult.commute)

theorem needsOverdrive_cases_witness:
  "needsOverdrive 400 ws_two_roots pdc_two = (50000600, False)
   \<and> needsOverdrive 2000 ws_two_roots pdc_two = (0, True)
   \<and> needsOverdrive 400 ws_need_two pdc_two = (0, True)"
  using needsOverdrive_cases [of 400 ws_two_roots pdc_two]
    needsOverdrive_cases [of 2000 ws_two_roots pdc_two]
    needsOverdrive_cases [of 400 ws_need_two pdc_two]
  by (simp add: ws_two_roots_def ws_need_two_def pdc_two_def pd_A_launched_def
      pd_B_unlaunched_def numLaunchedNotFailed_def latestOutstanding_def duration_add_def
      time_Until_def time_Sub_def wrap_int64_def MaxInt64_def MinInt64_def Millisecond_def)

lemma duration_add_exact:
  "0 < t - now \<Longrightarrow> t - now + 50 * Millisecond \<le> MaxInt64 \<Longrightarrow>
   duration_add (time_Until now t) (50 * Millisecond) = t - now + 50000000"
  by (simp add: duration_add_def time_Until_def time_Sub_def wrap_int64_def MaxInt64_def
      MinInt64_def Millisecond_def)

section \<open>Properties of managedDownload\<close>

lemma launchInitialWorkers_not_overhead:
  "mdResult (launchInitialWorkers lw k pdc calls) \<noteq> MDError ErrEncryptionOverhead"
  by (induction k arbitrary: pdc calls) (auto split: sum.splits)

text \<open>
  C7. When the cipher of the master key has non-zero overhead, \<open>managedDownload\<close> returns
  the encryption-overhead error, with no download state built and no worker launched,
  unless the request is offset 0 with length \<open>SectorSize \<times> MinPieces\<close>, in which case it
  is not rejected for that reason; with zero overhead no request is rejected for that
  reason.
\<close>

theorem managedDownload_overhead_rejection:
  "(staticMasterKeyOverhead pcws \<noteq> 0 \<longrightarrow>
      (if offset = 0 \<and> len = SectorSize * uint64_of_int (MinPieces (staticErasureCoder pcws))
       then mdResult (managedDownload lw pcws price offset len) \<noteq> MDError ErrEncryptionOverhead
       else managedDownload lw pcws price offset len
              = \<lparr>mdResult = MDError ErrEncryptionOverhead, mdStateBuilt = False, mdLaunchCalls = 0\<rparr>))
   \<and> (staticMasterKeyOverhead pcws = 0 \<longrightarrow>
        mdResult (managedDownload lw pcws price offset len) \<noteq> MDError ErrEncryptionOverhead)"
  by (auto simp: managedDownload_def Let_def launchInitialWorkers_not_overhead
      split: sum.splits prod.splits)

theorem managedDownload_overhead_rejection_witness:
  "staticMasterKeyOverhead pcws_encrypted \<noteq> 0
   \<and> managedDownload (\<lambda>pdc. Inr pdc) pcws_encrypted 1 0 64
       = \<lparr>mdResult = MDError ErrEncryptionOverhead, mdStateBuilt = False, mdLaunchCalls = 0\<rparr>
   \<and> mdResult (managedDownload (\<lambda>pdc. Inr pdc) pcws_encrypted 1 0 41943040)
       \<noteq> MDError ErrEncryptionOverhead
   \<and> staticMasterKeyOverhead ws_two_roots = 0
   \<and> mdResult (managedDownload (\<lambda>pdc. Inr pdc) ws_two_roots 1 0 64) \<noteq> MDError ErrEncryptionOverhead"
  using managedDownload_overhead_rejection [of pcws_encrypted 0 64 "\<lambda>pdc. Inr pdc" 1]
    managedDownload_overhead_rejection [of pcws_encrypted 0 41943040 "\<lambda>pdc. Inr pdc" 1]
    managedDownload_overhead_rejection [of ws_two_roots 0 64 "\<lambda>pdc. Inr pdc" 1]
  by (simp add: pcws_encrypted_def ws_two_roots_def ec_10_30_def SectorSize_def uint64_of_int_def)

section \<open>Properties of callAddWithEstimate\<close>

text \<open>
  C8 as stated fails where the estimate is within the bound and the queue refuses the job:
  on a queue on cool-down the call returns the unable-to-add error and enqueues nothing.
\<close>

theorem callAddWithEstimate_cooldown_counterexample:
  "\<not> (last (expectedJobTime jq_on_cooldown) > 30)
   \<and> callAddWithEstimate 50 jq_on_cooldown job_one_root 30
       = Inr (Inl ErrUnableToAddJob, jq_on_cooldown)"
  by (simp add: callAddWithEstimate_def jq_on_cooldown_def job_one_root_def JobTime_Max_def
      add_def Let_def)

lemma sorted_last_Max: "xs \<noteq> [] \<Longrightarrow> sorted xs \<Longrightarrow> last xs = Max (set xs)"
proof (induction xs)
  case Nil
  then show ?case by simp
next
  case (Cons x xs)
  show ?case
  proof (cases "xs = []")
    case True
    then show ?thesis by simp
  next
    case False
    with Cons have "last xs = Max (set xs)" by simp
    moreover have "hd xs \<in> set xs" using False by simp
    then have "x \<le> hd xs" and "hd xs \<le> Max (set xs)" using Cons.prems by auto
    then have "x \<le> Max (set xs)" by (rule order_trans)
    ultimately show ?thesis using False by (simp add: max_def)
  qed
qed

text \<open>
  C8, amended. With a non-empty, ascending list of percentiles: when the largest
  percentile exceeds \<open>maxEstimate\<close> the call returns \<open>ErrEstimateAboveMax\<close> and leaves the
  queue unchanged; otherwise, when the queue refuses the job (cool-down), it returns the
  unable-to-add error and leaves the queue unchanged; otherwise it appends the job,
  stamped with the start time, and returns the percentiles wrapped with that start time.
\<close>

theorem callAddWithEstimate_cases:
  assumes "expectedJobTime jq \<noteq> []" and "sorted (expectedJobTime jq)"
  shows "callAddWithEstimate now jq j maxEstimate =
     (if Max (set (expectedJobTime jq)) > maxEstimate then Inr (Inl ErrEstimateAboveMax, jq)
      else if now < cooldownUntil jq then Inr (Inl ErrUnableToAddJob, jq)
      else Inr (Inr \<lparr>rtStart = now, rtTimes = expectedJobTime jq\<rparr>,
                jq\<lparr>jobs := jobs jq @ [j\<lparr>externJobStartTime := now\<rparr>]\<rparr>))"
  using assms sorted_last_Max [OF assms]
  by (simp add: callAddWithEstimate_def JobTime_Max_def add_def Let_def JobTime_ResolveTime_def)

theorem callAddWithEstimate_cases_witness:
  "expectedJobTime jq_idle \<noteq> [] \<and> sorted (expectedJobTime jq_idle)
   \<and> callAddWithEstimate 50 jq_idle job_one_root 15 = Inr (Inl ErrEstimateAboveMax, jq_idle)
   \<and> callAddWithEstimate 50 jq_on_cooldown job_one_root 30 = Inr (Inl ErrUnableToAddJob, jq_on_cooldown)
   \<and> callAddWithEstimate 50 jq_idle job_one_root 30
       = Inr (Inr \<lparr>rtStart = 50, rtTimes = [10, 20]\<rparr>,
              jq_idle\<lparr>jobs := [job_one_root\<lparr>externJobStartTime := 50\<rparr>]\<rparr>)"
  using callAddWithEstimate_cases [of jq_idle 50 job_one_root 15]
    callAddWithEstimate_cases [of jq_idle 50 job_one_root 30]
    callAddWithEstimate_cases [of jq_on_cooldown 50 job_one_root 30]
  by (simp add: jq_idle_def jq_on_cooldown_def)

section \<open>Properties of HasSector batching\<close>

lemma callNextLoop_eq:
  "length batch \<le> hasSectorBatchSize \<Longrightarrow>
   callNextLoop jq batch =
     (batch @ take (hasSectorBatchSize - length batch) (jobs jq),
      jq\<lparr>jobs := drop (hasSectorBatchSize - length batch) (jobs jq)\<rparr>)"
proof (induction jq batch rule: callNextLoop.induct)
  case (1 jq batch)
  show ?case
  proof (cases "length batch \<ge> hasSectorBatchSize")
    case True
    with "1.prems" show ?thesis by (subst callNextLoop.simps) simp
  next
    case False
    show ?thesis
    proof (cases "jobs jq")
      case Nil
      with False show ?thesis by (subst callNextLoop.simps) (simp add: genericCallNext_def)
    next
      case (Cons j js)
      have g: "genericCallNext jq = (Some j, jq\<lparr>jobs := js\<rparr>)"
        using Cons by (simp add: genericCallNext_def)
      have le: "length (batch @ [j]) \<le> hasSectorBatchSize" using False by simp
      have ih: "callNextLoop (jq\<lparr>jobs := js\<rparr>) (batch @ [j]) =
         ((batch @ [j]) @ take (hasSectorBatchSize - length (batch @ [j])) (jobs (jq\<lparr>jobs := js\<rparr>)),
          (jq\<lparr>jobs := js\<rparr>)\<lparr>jobs := drop (hasSectorBatchSize - length (batch @ [j])) (jobs (jq\<lparr>jobs := js\<rparr>))\<rparr>)"
        using "1.IH" [OF _ g [symmetric] refl le] False by simp
      obtain d where d: "hasSectorBatchSize - length batch = Suc d"
        using False by (cases "hasSectorBatchSize - length batch") auto
      then have d': "hasSectorBatchSize - Suc (length batch) = d" by simp
      show ?thesis
        using False by (subst callNextLoop.simps) (simp add: g ih Cons d d')
    qed
  qed
qed

lemma parseResponses_ok:
  "\<forall>r\<in>set rs. respError r = None \<and> respOutput r \<noteq> [] \<Longrightarrow>
   parseResponses rs acc = HSOk (acc @ map (\<lambda>r. hd (respOutput r) = 1) rs)"
  by (induction rs arbitrary: acc) (auto split: option.splits list.splits)

lemma sliceResults_ok:
  "sum_list (map (length \<circ> staticSectors) js) \<le> length bits \<Longrightarrow>
   sliceResults js bits acc = HSOk (acc @ positionSlices (map (length \<circ> staticSectors) js) bits)"
  by (induction js arbitrary: bits acc) auto

lemma positionSlices_nth:
  "i < length ns \<Longrightarrow> positionSlices ns bits ! i = take (ns ! i) (drop (sum_list (take i ns)) bits)"
proof (induction ns arbitrary: i bits)
  case Nil
  then show ?case by simp
next
  case (Cons n ns)
  then show ?case by (cases i) (simp_all add: add.commute)
qed

lemma length_positionSlices [simp]: "length (positionSlices ns bits) = length ns"
  by (induction ns arbitrary: bits) auto

lemma positionSlices_map_concat:
  "positionSlices (map length xss) (map f (concat xss)) = map (map f) xss"
  by (induction xss) auto


lemma managedHasSector_ok:
  assumes ne: "staticJobs b \<noteq> []"
    and ex: "exec (concat (map staticSectors (staticJobs b))) = Inr rs"
    and ok: "\<forall>r\<in>set rs. respError r = None \<and> respOutput r \<noteq> []"
    and len: "length rs = length (concat (map staticSectors (staticJobs b)))"
  shows "managedHasSector exec b =
    HSOk (positionSlices (map (length \<circ> staticSectors) (staticJobs b))
           (map (\<lambda>r. hd (respOutput r) = 1) rs))"
proof -
  have s: "sum_list (map (length \<circ> staticSectors) (staticJobs b)) = length rs"
    using len by (simp add: length_concat comp_def)
  show ?thesis
    using ne ex len s
    by (simp add: managedHasSector_def Let_def parseResponses_ok [OF ok] sliceResults_ok)
qed

lemma callExecute_ok:
  assumes ne: "staticJobs b \<noteq> []"
    and ex: "exec (concat (map staticSectors (staticJobs b))) = Inr rs"
    and ok: "\<forall>r\<in>set rs. respError r = None \<and> respOutput r \<noteq> []"
    and len: "length rs = length (concat (map staticSectors (staticJobs b)))"
  shows "callExecute exec b =
    Inr (map (\<lambda>i. \<lparr>staticAvailables =
                     take (length (staticSectors (staticJobs b ! i)))
                       (drop (sum_list (map (length \<circ> staticSectors) (take i (staticJobs b))))
                          (map (\<lambda>r. hd (respOutput r) = 1) rs)),
                   hsStaticErr = None\<rparr>) [0..<length (staticJobs b)])"
  using ne by (simp add: callExecute_def managedHasSector_ok [of b exec rs, OF assms] positionSlices_nth take_map)

lemma hostHasSector_ok:
  "\<forall>r\<in>set (map (\<lambda>root. \<lparr>respError = None, respOutput = [if present root then 1 else 0]\<rparr>) prog).
     respError r = None \<and> respOutput r \<noteq> []"
  by simp

lemma callExecute_host:
  "callExecute (hostHasSector present) b =
     Inr (map (\<lambda>hsj. \<lparr>staticAvailables = map present (staticSectors hsj), hsStaticErr = None\<rparr>)
           (staticJobs b))"
proof (cases "staticJobs b = []")
  case True
  then show ?thesis by (simp add: callExecute_def)
next
  case False
  let ?prog = "concat (map staticSectors (staticJobs b))"
  let ?rs = "map (\<lambda>root. \<lparr>respError = None, respOutput = [if present root then (1::8 word) else 0]\<rparr>) ?prog"
  have bits: "map (\<lambda>r. hd (respOutput r) = 1) ?rs = map present ?prog"
    by (simp add: comp_def)
  have m: "managedHasSector (hostHasSector present) b =
      HSOk (positionSlices (map (length \<circ> staticSectors) (staticJobs b)) (map present ?prog))"
    using managedHasSector_ok [of b "hostHasSector present" ?rs, OF False _ hostHasSector_ok]
    by (simp add: hostHasSector_def bits del: map_map)
  have p: "positionSlices (map (length \<circ> staticSectors) (staticJobs b)) (map present ?prog)
      = map (map present) (map staticSectors (staticJobs b))"
    using positionSlices_map_concat [of "map staticSectors (staticJobs b)" present]
    by (simp add: comp_def)
  have "map (\<lambda>i. \<lparr>staticAvailables = map (map present \<circ> staticSectors) (staticJobs b) ! i, hsStaticErr = None\<rparr>)
          [0..<length (staticJobs b)]
        = map (\<lambda>hsj. \<lparr>staticAvailables = map present (staticSectors hsj), hsStaticErr = None\<rparr>) (staticJobs b)"
    by (rule nth_equalityI) simp_all
  then show ?thesis
    using False by (simp add: callExecute_def m p)
qed

text \<open>
  C9. \<open>callNext\<close> takes the oldest pending jobs, at most 13, into one batch. When the
  host answers the batch's program with one well-formed response per root, every job
  receives the slice of the answer vector at the position of its roots. A host that
  answers each root by whether it stores it gives every job of a batch the answer the job
  gets when executed alone. When the batch's request fails, every job of the batch
  receives that error.
\<close>

theorem hasSector_batching_preserves_job_semantics:
  "(case callNext jq of
      (None, jq') \<Rightarrow> jobs jq = []
    | (Some b', jq') \<Rightarrow>
        length (staticJobs b') \<le> 13 \<and> staticJobs b' = take 13 (jobs jq) \<and> jobs jq' = drop 13 (jobs jq))
   \<and> (\<forall>rs. staticJobs b \<noteq> []
          \<longrightarrow> exec (concat (map staticSectors (staticJobs b))) = Inr rs
          \<longrightarrow> (\<forall>r\<in>set rs. respError r = None \<and> respOutput r \<noteq> [])
          \<longrightarrow> length rs = length (concat (map staticSectors (staticJobs b)))
          \<longrightarrow> callExecute exec b =
                Inr (map (\<lambda>i. \<lparr>staticAvailables =
                                 take (length (staticSectors (staticJobs b ! i)))
                                   (drop (sum_list (map (length \<circ> staticSectors) (take i (staticJobs b))))
                                      (map (\<lambda>r. hd (respOutput r) = 1) rs)),
                               hsStaticErr = None\<rparr>) [0..<length (staticJobs b)]))
   \<and> callExecute (hostHasSector present) b =
        Inr (map (\<lambda>hsj. \<lparr>staticAvailables = map present (staticSectors hsj), hsStaticErr = None\<rparr>)
              (staticJobs b))
   \<and> (\<forall>hsj. callExecute (hostHasSector present) \<lparr>staticJobs = [hsj]\<rparr> =
          Inr [\<lparr>staticAvailables = map present (staticSectors hsj), hsStaticErr = None\<rparr>])
   \<and> (\<forall>err. managedHasSector exec b = HSErr err
          \<longrightarrow> callExecute exec b =
                Inr (map (\<lambda>hsj. \<lparr>staticAvailables = [], hsStaticErr = Some err\<rparr>) (staticJobs b)))"
proof (intro conjI allI impI)
  show "case callNext jq of
      (None, jq') \<Rightarrow> jobs jq = []
    | (Some b', jq') \<Rightarrow>
        length (staticJobs b') \<le> 13 \<and> staticJobs b' = take 13 (jobs jq) \<and> jobs jq' = drop 13 (jobs jq)"
    by (simp add: callNext_def callNextLoop_eq hasSectorBatchSize_def)
next
  fix rs
  assume "staticJobs b \<noteq> []" "exec (concat (map staticSectors (staticJobs b))) = Inr rs"
    "\<forall>r\<in>set rs. respError r = None \<and> respOutput r \<noteq> []"
    "length rs = length (concat (map staticSectors (staticJobs b)))"
  then show "callExecute exec b =
                Inr (map (\<lambda>i. \<lparr>staticAvailables =
                                 take (length (staticSectors (staticJobs b ! i)))
                                   (drop (sum_list (map (length \<circ> staticSectors) (take i (staticJobs b))))
                                      (map (\<lambda>r. hd (respOutput r) = 1) rs)),
                               hsStaticErr = None\<rparr>) [0..<length (staticJobs b)])"
    by (rule callExecute_ok)
next
  show "callExecute (hostHasSector present) b =
        Inr (map (\<lambda>hsj. \<lparr>staticAvailables = map present (staticSectors hsj), hsStaticErr = None\<rparr>)
              (staticJobs b))"
    by (rule callExecute_host)
next
  fix hsj
  show "callExecute (hostHasSector present) \<lparr>staticJobs = [hsj]\<rparr> =
          Inr [\<lparr>staticAvailables = map present (staticSectors hsj), hsStaticErr = None\<rparr>]"
    by (simp add: callExecute_host)
next
  fix err
  assume "managedHasSector exec b = HSErr err"
  then show "callExecute exec b =
                Inr (map (\<lambda>hsj. \<lparr>staticAvailables = [], hsStaticErr = Some err\<rparr>) (staticJobs b))"
    by (auto simp: callExecute_def managedHasSector_def)
qed

theorem hasSector_batching_preserves_job_semantics_witness:
  "callNext (jq_idle\<lparr>jobs := [job_one_root, job_two_roots]\<rparr>)
     = (Some batch_two_jobs, jq_idle\<lparr>jobs := []\<rparr>)
   \<and> callExecute (hostHasSector (\<lambda>root. root = [1])) batch_two_jobs
     = Inr [\<lparr>staticAvailables = [True], hsStaticErr = None\<rparr>,
            \<lparr>staticAvailables = [False, True], hsStaticErr = None\<rparr>]
   \<and> callExecute (hostHasSector (\<lambda>root. root = [1])) \<lparr>staticJobs = [job_two_roots]\<rparr>
     = Inr [\<lparr>staticAvailables = [False, True], hsStaticErr = None\<rparr>]
   \<and> managedHasSector (\<lambda>program. Inl HostError) batch_two_jobs = HSErr (ErrExecuteProgram HostError)
   \<and> callExecute (\<lambda>program. Inl HostError) batch_two_jobs
     = Inr [\<lparr>staticAvailables = [], hsStaticErr = Some (ErrExecuteProgram HostError)\<rparr>,
            \<lparr>staticAvailables = [], hsStaticErr = Some (ErrExecuteProgram HostError)\<rparr>]"
  using hasSector_batching_preserves_job_semantics
      [of "jq_idle\<lparr>jobs := [job_one_root, job_two_roots]\<rparr>" batch_two_jobs
          "\<lambda>program. Inl HostError" "\<lambda>root. root = [1]"]
  by (simp add: batch_two_jobs_def job_one_root_def job_two_roots_def jq_idle_def
      managedHasSector_def callNext_def callNextLoop.simps genericCallNext_def
      hasSectorBatchSize_def)

section \<open>Properties of findBestWorker\<close>

text \<open>
  C2. The claim: \<open>findBestWorker\<close> never returns a worker with the index of a piece that
  some worker has completed. The flag \<open>pieceCompleted\<close> is never set, so the skip of
  completed pieces does not happen: for the 1-of-1 worker set and the piece that worker A
  has completed and worker B has not been launched for, the code returns worker B with
  piece index 0.
\<close>

theorem findBestWorker_returns_completed_piece:
  "findBestWorker 400 ws_1_1 pdc_piece_completed
     = Inr \<lparr>fbwWorker = Some worker_B, fbwPieceIndex = 0, fbwSleep = 0, fbwWakeChan = False,
            fbwErr = None\<rparr>
   \<and> (\<exists>pd \<in> set (availablePieces pdc_piece_completed ! 0). completed pd)"
  by (simp add: findBestWorker_def ws_1_1_def pdc_piece_completed_def pd_B_unlaunched_def
      pd_A_launched_def worker_A_def worker_B_def uint64_of_int_def Let_def MaxInt64_def
      adjustedReadTime_def MaxUint64_def workerRankLate_def workerRankActivePiece_def
      workerRankLaunchedPiece_def workerRankUnlaunchedPiece_def)

section \<open>Properties of the Merkle range proofs\<close>

subsection \<open>Stacks and the leaves they stand for\<close>

lemma stackLeaves_Nil [simp]: "stackLeaves [] = 0"
  by (simp add: stackLeaves_def)

lemma stackLeaves_Cons [simp]: "stackLeaves (e # s) = 2 ^ fst e + stackLeaves s"
  by (simp add: stackLeaves_def)

lemma stackLeaves_append [simp]: "stackLeaves (s @ t) = stackLeaves s + stackLeaves t"
  by (simp add: stackLeaves_def)

lemma stackLeaves_appendNodeAtHeight:
  "stackLeaves (appendNodeAtHeight h s v k) = stackLeaves s + 2 ^ k"
  by (induction s arbitrary: v k) auto

lemma dvd_stackLeaves: "\<forall>e\<in>set s. k \<le> fst e \<Longrightarrow> 2 ^ k dvd stackLeaves s"
  by (induction s) (auto simp: le_imp_power_dvd)

lemma heights_ge_of_dvd:
  assumes "sorted_wrt (<) (map fst s)" and "2 ^ k dvd stackLeaves s"
  shows "\<forall>e\<in>set s. k \<le> fst e"
proof (cases s)
  case Nil
  then show ?thesis by simp
next
  case (Cons e s')
  have gt: "\<forall>x\<in>set s'. fst e < fst x" using assms(1) Cons by auto
  then have "\<forall>x\<in>set s'. Suc (fst e) \<le> fst x" by auto
  then have d: "2 ^ Suc (fst e) dvd stackLeaves s'" by (rule dvd_stackLeaves)
  have "k \<le> fst e"
  proof (rule ccontr)
    assume "\<not> k \<le> fst e"
    then have "Suc (fst e) \<le> k" by simp
    then have "(2::nat) ^ Suc (fst e) dvd 2 ^ k" by (rule le_imp_power_dvd)
    then have "(2::nat) ^ Suc (fst e) dvd 2 ^ fst e + stackLeaves s'"
      using assms(2) Cons by (auto elim: dvd_trans)
    then have "(2::nat) ^ Suc (fst e) dvd 2 ^ fst e" using d by (simp add: dvd_add_left_iff)
    then have "(2::nat) ^ Suc (fst e) \<le> 2 ^ fst e" by (rule dvd_imp_le) simp
    then show False by simp
  qed
  then show ?thesis using gt Cons by auto
qed

lemma sorted_appendNodeAtHeight:
  "sorted_wrt (<) (map fst s) \<Longrightarrow> \<forall>e\<in>set s. k \<le> fst e \<Longrightarrow>
   sorted_wrt (<) (map fst (appendNodeAtHeight h s v k))
   \<and> (\<forall>e\<in>set (appendNodeAtHeight h s v k). k \<le> fst e)"
proof (induction s arbitrary: v k)
  case Nil
  then show ?case by simp
next
  case (Cons e s)
  obtain ht u where e: "e = (ht, u)" by (cases e)
  show ?case
  proof (cases "ht = k")
    case True
    have "sorted_wrt (<) (map fst s)" using Cons.prems by simp
    moreover have "\<forall>x\<in>set s. Suc k \<le> fst x" using Cons.prems e True by auto
    ultimately have "sorted_wrt (<) (map fst (appendNodeAtHeight h s (nodeHash h u v) (Suc k)))
      \<and> (\<forall>x\<in>set (appendNodeAtHeight h s (nodeHash h u v) (Suc k)). Suc k \<le> fst x)"
      by (rule Cons.IH)
    then show ?thesis using e True by auto
  next
    case False
    then have "k < ht" using Cons.prems e by auto
    then show ?thesis using Cons.prems e False by auto
  qed
qed

lemma stackOf_Nil [simp]: "stackOf h s [] = s"
  by (simp add: stackOf_def)

lemma stackOf_append: "stackOf h s (xs @ ys) = stackOf h (stackOf h s xs) ys"
  by (simp add: stackOf_def)

lemma stackOf_snoc: "stackOf h s (xs @ [x]) = appendNodeAtHeight h (stackOf h s xs) (leafHash h x) 0"
  by (simp add: stackOf_def AppendNode_def)

lemma stackOf_Cons: "stackOf h s (x # xs) = stackOf h (appendNodeAtHeight h s (leafHash h x) 0) xs"
  by (simp add: stackOf_def AppendNode_def)

lemma stackLeaves_stackOf: "stackLeaves (stackOf h s xs) = stackLeaves s + length xs"
  by (induction xs rule: rev_induct) (simp_all add: stackOf_snoc stackLeaves_appendNodeAtHeight)

lemma sorted_stackOf:
  "sorted_wrt (<) (map fst s) \<Longrightarrow> sorted_wrt (<) (map fst (stackOf h s xs))"
  by (induction xs rule: rev_induct) (simp_all add: stackOf_snoc sorted_appendNodeAtHeight)

lemma heights_stackOf:
  assumes "2 ^ k dvd length xs"
  shows "\<forall>e\<in>set (stackOf h [] xs). k \<le> fst e"
proof (rule heights_ge_of_dvd)
  show "sorted_wrt (<) (map fst (stackOf h [] xs))" by (rule sorted_stackOf) simp
  show "2 ^ k dvd stackLeaves (stackOf h [] xs)" using assms by (simp add: stackLeaves_stackOf)
qed

lemma appendNodeAtHeight_push:
  "\<forall>e\<in>set s. k < fst e \<Longrightarrow> appendNodeAtHeight h s v k = (k, v) # s"
  by (cases s) auto

lemma perfect_subtree:
  "(\<forall>ys. length ys = 2 ^ k \<longrightarrow> stackOf h [] ys = [(k, Root h (stackOf h [] ys))])
   \<and> (\<forall>xs ys. length ys = 2 ^ k \<longrightarrow> 2 ^ k dvd length xs \<longrightarrow>
         stackOf h [] (xs @ ys) = appendNodeAtHeight h (stackOf h [] xs) (Root h (stackOf h [] ys)) k)"
proof (induction k)
  case 0
  have a: "stackOf h [] ys = [(0, Root h (stackOf h [] ys))]" if "length ys = 1" for ys
  proof -
    from that obtain y where "ys = [y]" by (cases ys) auto
    then show ?thesis by (simp add: stackOf_Cons)
  qed
  have b: "stackOf h [] (xs @ ys) = appendNodeAtHeight h (stackOf h [] xs) (Root h (stackOf h [] ys)) 0"
    if "length ys = 1" for xs ys
  proof -
    from that obtain y where "ys = [y]" by (cases ys) auto
    then show ?thesis by (simp add: stackOf_snoc stackOf_Cons)
  qed
  show ?case using a b by simp
next
  case (Suc k)
  then have T: "\<And>ys. length ys = 2 ^ k \<Longrightarrow> stackOf h [] ys = [(k, Root h (stackOf h [] ys))]"
    and S: "\<And>xs ys. length ys = 2 ^ k \<Longrightarrow> 2 ^ k dvd length xs \<Longrightarrow>
         stackOf h [] (xs @ ys) = appendNodeAtHeight h (stackOf h [] xs) (Root h (stackOf h [] ys)) k"
    by blast+
  have main: "stackOf h [] (xs @ ys) =
      appendNodeAtHeight h (stackOf h [] xs)
        (nodeHash h (Root h (stackOf h [] (take (2 ^ k) ys))) (Root h (stackOf h [] (drop (2 ^ k) ys)))) (Suc k)"
    if len: "length ys = 2 ^ Suc k" and dv: "2 ^ Suc k dvd length xs" for xs ys
  proof -
    let ?y1 = "take (2 ^ k) ys" and ?y2 = "drop (2 ^ k) ys"
    have l1: "length ?y1 = 2 ^ k" and l2: "length ?y2 = 2 ^ k" using len by simp_all
    have dk: "2 ^ k dvd length xs" using dv by (metis dvd_trans le_imp_power_dvd le_SucI order_refl)
    have "stackOf h [] (xs @ ys) = stackOf h [] ((xs @ ?y1) @ ?y2)" by simp
    also have "\<dots> = appendNodeAtHeight h (stackOf h [] (xs @ ?y1)) (Root h (stackOf h [] ?y2)) k"
      using l1 l2 dk by (intro S) simp_all
    also have "stackOf h [] (xs @ ?y1) = appendNodeAtHeight h (stackOf h [] xs) (Root h (stackOf h [] ?y1)) k"
      using l1 dk by (intro S)
    also have "\<dots> = (k, Root h (stackOf h [] ?y1)) # stackOf h [] xs"
    proof (rule appendNodeAtHeight_push)
      have "\<forall>e\<in>set (stackOf h [] xs). Suc k \<le> fst e" using dv by (rule heights_stackOf)
      then show "\<forall>e\<in>set (stackOf h [] xs). k < fst e" by auto
    qed
    finally show ?thesis by simp
  qed
  have T': "stackOf h [] ys = [(Suc k, Root h (stackOf h [] ys))]" if len: "length ys = 2 ^ Suc k" for ys
  proof -
    have "stackOf h [] ys = [(Suc k, nodeHash h (Root h (stackOf h [] (take (2 ^ k) ys))) (Root h (stackOf h [] (drop (2 ^ k) ys))))]"
      using main [of ys "[]"] len by simp
    then show ?thesis by simp
  qed
  have S': "stackOf h [] (xs @ ys) = appendNodeAtHeight h (stackOf h [] xs) (Root h (stackOf h [] ys)) (Suc k)"
    if len: "length ys = 2 ^ Suc k" and dv: "2 ^ Suc k dvd length xs" for xs ys
  proof -
    have "stackOf h [] ys = [(Suc k, nodeHash h (Root h (stackOf h [] (take (2 ^ k) ys))) (Root h (stackOf h [] (drop (2 ^ k) ys))))]"
      using main [of ys "[]"] len by simp
    then have "Root h (stackOf h [] ys) = nodeHash h (Root h (stackOf h [] (take (2 ^ k) ys))) (Root h (stackOf h [] (drop (2 ^ k) ys)))"
      by simp
    then show ?thesis using main [OF len dv] by simp
  qed
  show ?case using T' S' by blast
qed

lemma stackOf_full_block:
  "length ys = 2 ^ k \<Longrightarrow> 2 ^ k dvd length xs \<Longrightarrow>
   appendNodeAtHeight h (stackOf h [] xs) (Root h (stackOf h [] ys)) k = stackOf h [] (xs @ ys)"
  using perfect_subtree [of k h] by simp

lemma Root_appendNodeAtHeight:
  "Root h (appendNodeAtHeight h s v k) = foldl (\<lambda>root (ht', node). nodeHash h node root) v s"
  by (induction s arbitrary: v k) auto

lemma Root_append:
  "s1 \<noteq> [] \<Longrightarrow> Root h (s1 @ s2) = foldl (\<lambda>root (ht', node). nodeHash h node root) (Root h s1) s2"
  by (cases s1) auto

lemma appendNodeAtHeight_append:
  "2 ^ j + stackLeaves t < 2 ^ k \<Longrightarrow> \<forall>e\<in>set s. k \<le> fst e \<Longrightarrow>
   appendNodeAtHeight h (t @ s) v j = appendNodeAtHeight h t v j @ s"
proof (induction t arbitrary: v j)
  case Nil
  then have "j < k" by (simp add: power_strict_increasing_iff)
  then have "\<forall>e\<in>set s. j < fst e" using Nil.prems by auto
  then show ?case by (simp add: appendNodeAtHeight_push)
next
  case (Cons e t)
  obtain ht u where e: "e = (ht, u)" by (cases e)
  show ?case
  proof (cases "ht = j")
    case True
    have "2 ^ Suc j + stackLeaves t < 2 ^ k" using Cons.prems(1) e True by simp
    then have "appendNodeAtHeight h (t @ s) (nodeHash h u v) (Suc j)
        = appendNodeAtHeight h t (nodeHash h u v) (Suc j) @ s"
      using Cons.prems(2) by (rule Cons.IH)
    then show ?thesis using e True by simp
  next
    case False
    then show ?thesis using e by simp
  qed
qed

lemma stackOf_low_block:
  "\<forall>e\<in>set s. k \<le> fst e \<Longrightarrow> length ys < 2 ^ k \<Longrightarrow> stackOf h s ys = stackOf h [] ys @ s"
proof (induction ys rule: rev_induct)
  case Nil
  then show ?case by simp
next
  case (snoc y ys)
  then have ih: "stackOf h s ys = stackOf h [] ys @ s" by simp
  have "2 ^ 0 + stackLeaves (stackOf h [] ys) < 2 ^ k"
    using snoc.prems(2) by (simp add: stackLeaves_stackOf)
  then have "appendNodeAtHeight h (stackOf h [] ys @ s) (leafHash h y) 0
      = appendNodeAtHeight h (stackOf h [] ys) (leafHash h y) 0 @ s"
    using snoc.prems(1) by (rule appendNodeAtHeight_append)
  then show ?case by (simp add: stackOf_snoc ih)
qed

lemma stackOf_eq_Nil_iff: "stackOf h [] ys = [] \<longleftrightarrow> ys = []"
proof
  assume "stackOf h [] ys = []"
  then have "stackLeaves (stackOf h [] ys) = 0" by simp
  then show "ys = []" by (simp add: stackLeaves_stackOf)
qed simp

lemma Root_last_block:
  assumes dv: "2 ^ k dvd length xs" and ne: "ys \<noteq> []" and le: "length ys \<le> 2 ^ k"
  shows "Root h (appendNodeAtHeight h (stackOf h [] xs) (Root h (stackOf h [] ys)) k)
         = Root h (stackOf h [] (xs @ ys))"
proof (cases "length ys = 2 ^ k")
  case True
  then show ?thesis using dv by (simp add: stackOf_full_block)
next
  case False
  then have lt: "length ys < 2 ^ k" using le by simp
  have "\<forall>e\<in>set (stackOf h [] xs). k \<le> fst e" using dv by (rule heights_stackOf)
  then have "stackOf h (stackOf h [] xs) ys = stackOf h [] ys @ stackOf h [] xs"
    using lt by (rule stackOf_low_block)
  then have "Root h (stackOf h [] (xs @ ys)) = Root h (stackOf h [] ys @ stackOf h [] xs)"
    by (simp add: stackOf_append)
  also have "\<dots> = foldl (\<lambda>root (ht', node). nodeHash h node root) (Root h (stackOf h [] ys)) (stackOf h [] xs)"
    using ne by (intro Root_append) (simp add: stackOf_eq_Nil_iff)
  finally show ?thesis by (simp add: Root_appendNodeAtHeight)
qed

subsection \<open>Leaves and readers\<close>

lemma leavesOf_Nil [simp]: "leavesOf ls [] = []"
  by (simp add: leavesOf.simps)

lemma leavesOf_nonempty:
  "0 < ls \<Longrightarrow> rd \<noteq> [] \<Longrightarrow> leavesOf ls rd = take ls rd # leavesOf ls (drop ls rd)"
  by (subst leavesOf.simps) simp

lemma leavesOf_eq_Nil_iff: "0 < ls \<Longrightarrow> leavesOf ls rd = [] \<longleftrightarrow> rd = []"
  by (cases "rd = []") (simp_all add: leavesOf_nonempty)

lemma leavesOf_drop: "0 < ls \<Longrightarrow> leavesOf ls (drop (k * ls) rd) = drop k (leavesOf ls rd)"
proof (induction k arbitrary: rd)
  case 0
  then show ?case by simp
next
  case (Suc k)
  show ?case
  proof (cases "rd = []")
    case True
    then show ?thesis by simp
  next
    case False
    have e: "drop (Suc k * ls) rd = drop (k * ls) (drop ls rd)" by (simp add: add.commute)
    have "leavesOf ls (drop (Suc k * ls) rd) = leavesOf ls (drop (k * ls) (drop ls rd))"
      by (simp only: e)
    also have "\<dots> = drop k (leavesOf ls (drop ls rd))" by (rule Suc.IH [OF Suc.prems])
    also have "\<dots> = drop (Suc k) (leavesOf ls rd)"
      by (simp add: leavesOf_nonempty [OF Suc.prems False])
    finally show ?thesis .
  qed
qed

lemma leavesOf_take: "0 < ls \<Longrightarrow> leavesOf ls (take (k * ls) rd) = take k (leavesOf ls rd)"
proof (induction k arbitrary: rd)
  case 0
  then show ?case by simp
next
  case (Suc k)
  show ?case
  proof (cases "rd = []")
    case True
    then show ?thesis by simp
  next
    case False
    then have ne: "take (Suc k * ls) rd \<noteq> []" using Suc.prems by simp
    have t: "take ls (take (Suc k * ls) rd) = take ls rd" by (simp add: min_def)
    have d: "drop ls (take (Suc k * ls) rd) = take (k * ls) (drop ls rd)"
      by (simp add: drop_take)
    have "leavesOf ls (take (Suc k * ls) rd)
        = take ls (take (Suc k * ls) rd) # leavesOf ls (drop ls (take (Suc k * ls) rd))"
      by (rule leavesOf_nonempty [OF Suc.prems ne])
    also have "\<dots> = take ls rd # leavesOf ls (take (k * ls) (drop ls rd))"
      by (simp only: t d)
    also have "\<dots> = take ls rd # take k (leavesOf ls (drop ls rd))"
      by (simp only: Suc.IH [OF Suc.prems])
    also have "\<dots> = take (Suc k) (leavesOf ls rd)"
      by (simp add: leavesOf_nonempty [OF Suc.prems False])
    finally show ?thesis .
  qed
qed

lemma nextSubtreeLoop_eq:
  "0 < ls \<Longrightarrow>
   nextSubtreeLoop h ls n rd s = (stackOf h s (take n (leavesOf ls rd)), drop (n * ls) rd)"
proof (induction n arbitrary: rd s)
  case 0
  then show ?case by simp
next
  case (Suc n)
  show ?case
  proof (cases "rd = []")
    case True
    then show ?thesis using Suc.prems by (simp add: ReadFull_def)
  next
    case False
    show ?thesis
    proof (cases "length rd < ls")
      case True
      then have "leavesOf ls rd = [rd]" using Suc.prems False by (simp add: leavesOf_nonempty)
      then show ?thesis using Suc.prems False True
        by (simp add: ReadFull_def stackOf_Cons AppendNode_def)
    next
      case nshort: False
      have "drop (Suc n * ls) rd = drop (n * ls) (drop ls rd)" by (simp add: add.commute)
      then show ?thesis using Suc False nshort
        by (simp add: ReadFull_def leavesOf_nonempty stackOf_Cons AppendNode_def)
    qed
  qed
qed

lemma NextSubtreeRoot_eq:
  assumes "0 < sr_leafSize sr"
  shows "NextSubtreeRoot h sr n =
    (if n \<le> 0 \<or> sr_r sr = [] then Inl EOF
     else Inr (Root h (stackOf h [] (take (nat n) (leavesOf (sr_leafSize sr) (sr_r sr))))),
     sr\<lparr>sr_r := drop (nat n * sr_leafSize sr) (sr_r sr)\<rparr>)"
  using assms
  by (auto simp: NextSubtreeRoot_def nextSubtreeLoop_eq NumNodes_def NewStack_def
      stackOf_eq_Nil_iff leavesOf_eq_Nil_iff)

lemma verifyLeaves_eq:
  "0 < ls \<Longrightarrow> length (leavesOf ls rd) = k \<Longrightarrow>
   verifyLeaves h ls k rd s = Inr (stackOf h s (leavesOf ls rd))"
proof (induction k arbitrary: rd s)
  case 0
  then show ?case by simp
next
  case (Suc k)
  then have ne: "rd \<noteq> []" by auto
  have lv: "leavesOf ls rd = take ls rd # leavesOf ls (drop ls rd)"
    using Suc.prems(1) ne by (rule leavesOf_nonempty)
  then have len: "length (leavesOf ls (drop ls rd)) = k" using Suc.prems(2) by simp
  show ?case
  proof (cases "length rd < ls")
    case True
    then have "k = 0" using len by simp
    then show ?thesis using Suc.prems ne True lv
      by (simp add: ReadFull_def stackOf_Cons AppendNode_def)
  next
    case False
    have "verifyLeaves h ls k (drop ls rd) (AppendNode h s (leafHash h (take ls rd)))
        = Inr (stackOf h (AppendNode h s (leafHash h (take ls rd))) (leavesOf ls (drop ls rd)))"
      using Suc.prems(1) len by (rule Suc.IH)
    then show ?thesis using Suc.prems ne False lv
      by (simp add: ReadFull_def stackOf_Cons AppendNode_def)
  qed
qed

subsection \<open>The hashes left of the range\<close>

lemma high_bits_step:
  fixes a :: nat
  shows "(a div 2 ^ Suc i) * 2 ^ Suc i + (if bit a i then 2 ^ i else 0) = (a div 2 ^ i) * 2 ^ i"
proof -
  define q where "q = a div 2 ^ i"
  have d: "a div 2 ^ Suc i = q div 2"
    by (simp add: q_def power_Suc2 div_mult2_eq del: power_Suc)
  have b: "bit a i = odd q" by (simp add: q_def bit_iff_odd)
  have "q div 2 * 2 ^ Suc i + (if odd q then 2 ^ i else 0) = q * 2 ^ i"
  proof (cases "odd q")
    case True
    then obtain m where "q = 2 * m + 1" by (auto elim: oddE)
    then show ?thesis by (simp add: algebra_simps)
  next
    case False
    then obtain m where "q = 2 * m" by (auto elim: evenE)
    then show ?thesis by simp
  qed
  then show ?thesis by (simp only: d b q_def)
qed

lemma high_bits_le: "(a div 2 ^ k) * 2 ^ k \<le> a" for a :: nat
  by simp

lemma leftProof_Nil_of_dvd: "2 ^ k dvd a \<Longrightarrow> leftProof h L a k = []"
proof (induction k)
  case 0
  then show ?case by simp
next
  case (Suc i)
  then have "2 ^ i dvd a" by (metis dvd_trans le_imp_power_dvd le_SucI order_refl)
  moreover have "\<not> bit a i"
  proof -
    from Suc.prems obtain m where "a = 2 ^ Suc i * m" by (auto elim: dvdE)
    then have "a div 2 ^ i = 2 * m" by simp
    then show ?thesis by (simp add: bit_iff_odd)
  qed
  ultimately show ?case using Suc.IH by simp
qed

lemma high_bits_eq_of_leftProof_Nil: "leftProof h L a k = [] \<Longrightarrow> (a div 2 ^ k) * 2 ^ k = a"
proof (induction k)
  case 0
  then show ?case by simp
next
  case (Suc i)
  then have nb: "\<not> bit a i" and "leftProof h L a i = []" by (auto split: if_splits)
  then have "(a div 2 ^ i) * 2 ^ i = a" using Suc.IH by simp
  then show ?case using high_bits_step [of a i] nb by simp
qed

lemma buildLeft_eq:
  assumes ls: "0 < ls" and an: "a \<le> length (leavesOf ls sector)"
  shows "buildLeft h a k ((a div 2 ^ k) * 2 ^ k)
           \<lparr>sr_r = drop ((a div 2 ^ k) * 2 ^ k * ls) sector, sr_leafSize = ls\<rparr> proof
         = Some (Inr (proof @ leftProof h (leavesOf ls sector) a k,
                      \<lparr>sr_r = drop (a * ls) sector, sr_leafSize = ls\<rparr>))"
proof (induction k arbitrary: "proof")
  case 0
  then show ?case by simp
next
  case (Suc i)
  let ?L = "leavesOf ls sector"
  let ?hi = "(a div 2 ^ Suc i) * 2 ^ Suc i"
  let ?lo = "(a div 2 ^ i) * 2 ^ i"
  have le: "?hi \<le> a" by (rule high_bits_le)
  show ?case
  proof (cases "?hi < a")
    case False
    then have eq: "?hi = a" using le by linarith
    then have "2 ^ Suc i dvd a" by (metis dvd_triv_right)
    then have "leftProof h ?L a (Suc i) = []" by (rule leftProof_Nil_of_dvd)
    with eq show ?thesis by (simp del: leftProof.simps power_Suc)
  next
    case True
    show ?thesis
    proof (cases "bit a i")
      case nb: False
      then have hl: "?hi = ?lo" using high_bits_step [of a i] by simp
      have "buildLeft h a (Suc i) ?hi \<lparr>sr_r = drop (?hi * ls) sector, sr_leafSize = ls\<rparr> proof
          = buildLeft h a i ?hi \<lparr>sr_r = drop (?hi * ls) sector, sr_leafSize = ls\<rparr> proof"
        using True nb by (simp add: and_exp_eq_0_iff_not_bit del: power_Suc)
      also have "\<dots> = Some (Inr (proof @ leftProof h ?L a i,
                      \<lparr>sr_r = drop (a * ls) sector, sr_leafSize = ls\<rparr>))"
        unfolding hl by (rule Suc.IH)
      finally show ?thesis using nb by (simp del: power_Suc)
    next
      case b: True
      then have hl: "?hi + 2 ^ i = ?lo" using high_bits_step [of a i] by simp
      have "?hi < length ?L" using True an by simp
      then have "drop ?hi ?L \<noteq> []" by simp
      then have ne: "drop (?hi * ls) sector \<noteq> []"
        using ls by (metis leavesOf_drop leavesOf_Nil)
      have dd: "drop (2 ^ i * ls + ?hi * ls) sector = drop (?lo * ls) sector"
        unfolding hl [symmetric] by (simp add: algebra_simps)
      have n: "NextSubtreeRoot h \<lparr>sr_r = drop (?hi * ls) sector, sr_leafSize = ls\<rparr> (2 ^ i)
          = (Inr (Root h (stackOf h [] (take (2 ^ i) (drop ?hi ?L)))),
             \<lparr>sr_r = drop (?lo * ls) sector, sr_leafSize = ls\<rparr>)"
        using ls ne by (simp add: NextSubtreeRoot_eq leavesOf_drop dd nat_power_eq del: power_Suc)
      have "buildLeft h a (Suc i) ?hi \<lparr>sr_r = drop (?hi * ls) sector, sr_leafSize = ls\<rparr> proof
          = buildLeft h a i ?lo \<lparr>sr_r = drop (?lo * ls) sector, sr_leafSize = ls\<rparr>
              (proof @ [Root h (stackOf h [] (take (2 ^ i) (drop ?hi ?L)))])"
        using True b by (simp add: and_exp_eq_0_iff_not_bit n hl del: power_Suc)
      also have "\<dots> = Some (Inr ((proof @ [Root h (stackOf h [] (take (2 ^ i) (drop ?hi ?L)))])
                        @ leftProof h ?L a i,
                      \<lparr>sr_r = drop (a * ls) sector, sr_leafSize = ls\<rparr>))"
        by (rule Suc.IH)
      finally show ?thesis using b by (simp del: power_Suc)
    qed
  qed
qed

lemma bit_word_of_nat_64:
  "i < 64 \<Longrightarrow> ((word_of_nat a :: 64 word) AND 2 ^ i \<noteq> 0) = bit a i"
  by (simp add: and_exp_eq_0_iff_not_bit bit_of_nat_iff possible_bit_word)

lemma verifyLeft_eq:
  assumes an: "a \<le> length L"
  shows "k \<le> 64 \<Longrightarrow>
    verifyLeft h (word_of_nat a) k (leftProof h L a k @ rest)
      (stackOf h [] (take ((a div 2 ^ k) * 2 ^ k) L))
    = (rest, stackOf h [] (take a L))"
proof (induction k)
  case 0
  then show ?case by simp
next
  case (Suc i)
  then have i: "i < 64" and ik: "i \<le> 64" by simp_all
  let ?hi = "(a div 2 ^ Suc i) * 2 ^ Suc i"
  let ?lo = "(a div 2 ^ i) * 2 ^ i"
  show ?case
  proof (cases "leftProof h L a (Suc i) @ rest = []")
    case True
    then have "leftProof h L a (Suc i) = []" and "rest = []" by simp_all
    then show ?thesis using high_bits_eq_of_leftProof_Nil [of h L a "Suc i"]
      by (simp del: leftProof.simps power_Suc)
  next
    case ne: False
    show ?thesis
    proof (cases "bit a i")
      case nb: False
      then have hl: "?hi = ?lo" using high_bits_step [of a i] by simp
      have p: "leftProof h L a (Suc i) = leftProof h L a i" using nb by simp
      have "verifyLeft h (word_of_nat a) (Suc i) (leftProof h L a (Suc i) @ rest)
              (stackOf h [] (take ?hi L))
          = verifyLeft h (word_of_nat a) i (leftProof h L a i @ rest) (stackOf h [] (take ?lo L))"
        using ne nb i unfolding p hl by (simp add: bit_word_of_nat_64 del: power_Suc)
      then show ?thesis using Suc.IH [OF ik] by simp
    next
      case b: True
      then have hl: "?hi + 2 ^ i = ?lo" using high_bits_step [of a i] by simp
      let ?blk = "take (2 ^ i) (drop ?hi L)"
      have p: "leftProof h L a (Suc i) = Root h (stackOf h [] ?blk) # leftProof h L a i"
        using b by simp
      have "?lo \<le> a" by (rule high_bits_le)
      then have lo: "?hi + 2 ^ i \<le> length L" using an hl by linarith
      then have len: "length ?blk = 2 ^ i" by simp
      have dv: "2 ^ i dvd length (take ?hi L)"
      proof -
        have "length (take ?hi L) = ?hi" using lo by simp
        then show ?thesis by simp
      qed
      have "appendNodeAtHeight h (stackOf h [] (take ?hi L)) (Root h (stackOf h [] ?blk)) i
          = stackOf h [] (take ?hi L @ ?blk)"
        using len dv by (rule stackOf_full_block)
      also have "take ?hi L @ ?blk = take ?lo L"
        unfolding hl [symmetric] by (simp add: take_add)
      finally have st: "appendNodeAtHeight h (stackOf h [] (take ?hi L)) (Root h (stackOf h [] ?blk)) i
          = stackOf h [] (take ?lo L)" .
      have "verifyLeft h (word_of_nat a) (Suc i) (leftProof h L a (Suc i) @ rest)
              (stackOf h [] (take ?hi L))
          = verifyLeft h (word_of_nat a) i (leftProof h L a i @ rest) (stackOf h [] (take ?lo L))"
        using b i unfolding p by (simp add: bit_word_of_nat_64 st del: power_Suc)
      then show ?thesis using Suc.IH [OF ik] by simp
    qed
  qed
qed

subsection \<open>The hashes right of the range\<close>

lemma rightPos_Suc:
  "rightPos b (Suc i) = rightPos b i + (if bit (b - 1) i then 0 else 2 ^ i)"
proof -
  define q where "q = (b - 1) div 2 ^ i"
  have d: "(b - 1) div 2 ^ Suc i = q div 2"
    by (simp add: q_def power_Suc2 div_mult2_eq del: power_Suc)
  have bt: "bit (b - 1) i = odd q" by (simp add: q_def bit_iff_odd)
  have "(q div 2 + 1) * 2 ^ Suc i = (q + 1) * 2 ^ i + (if odd q then 0 else 2 ^ i)"
  proof (cases "odd q")
    case True
    then obtain m where "q = 2 * m + 1" by (auto elim: oddE)
    then show ?thesis by (simp add: algebra_simps)
  next
    case False
    then obtain m where "q = 2 * m" by (auto elim: evenE)
    then show ?thesis by (simp add: algebra_simps)
  qed
  then show ?thesis by (simp only: rightPos_def d bt q_def)
qed

lemma rightPos_0: "0 < b \<Longrightarrow> rightPos b 0 = b"
  by (simp add: rightPos_def)

lemma rightPos_dvd: "2 ^ i dvd rightPos b i"
  by (simp add: rightPos_def)

lemma rightPos_mono: "rightPos b i \<le> rightPos b (Suc i)"
  by (simp add: rightPos_Suc del: power_Suc)

lemma rightProof_Nil_of_le: "length L \<le> rightPos b i \<Longrightarrow> rightProof h L b i = []"
proof (induction "63 - i" arbitrary: i)
  case 0
  then show ?case by (subst rightProof.simps) simp
next
  case (Suc d)
  then have i: "i < 63" and d: "d = 63 - Suc i" by simp_all
  have "length L \<le> rightPos b (Suc i)" using Suc.prems rightPos_mono [of b i] by linarith
  then have "rightProof h L b (Suc i) = []" using d by (intro Suc.hyps(1))
  then show ?case using Suc.prems by (subst rightProof.simps) simp
qed

lemma rightPos_63: "b - 1 < 2 ^ 63 \<Longrightarrow> rightPos b 63 = 2 ^ 63"
  by (simp add: rightPos_def)

lemma rightPos_ge_of_rightProof_Nil:
  assumes n: "length L < 2 ^ 63" and b: "b - 1 < 2 ^ 63"
  shows "i \<le> 63 \<Longrightarrow> rightProof h L b i = [] \<Longrightarrow> length L \<le> rightPos b i"
proof (induction "63 - i" arbitrary: i)
  case 0
  then have "i = 63" by simp
  then show ?case using n rightPos_63 [OF b] by simp
next
  case (Suc d)
  then have i: "i < 63" and d: "d = 63 - Suc i" and si: "Suc i \<le> 63" by simp_all
  show ?case
  proof (cases "bit (b - 1) i")
    case True
    then have "rightProof h L b (Suc i) = []"
      using Suc.prems(2) i by (subst (asm) rightProof.simps) simp
    then have "length L \<le> rightPos b (Suc i)" using d si by (intro Suc.hyps(1))
    then show ?thesis using True by (simp add: rightPos_Suc del: power_Suc)
  next
    case False
    then show ?thesis using Suc.prems(2) i
      by (subst (asm) rightProof.simps) (simp split: if_splits)
  qed
qed

lemma buildRight_eq:
  assumes ls: "0 < ls"
  shows "buildRight h (b - 1) i \<lparr>sr_r = drop (rightPos b i * ls) sector, sr_leafSize = ls\<rparr> proof
         = Inr (proof @ rightProof h (leavesOf ls sector) b i)"
proof (induction "63 - i" arbitrary: i "proof")
  case 0
  then show ?case by (subst buildRight.simps, subst rightProof.simps) simp
next
  case (Suc d)
  then have i: "i < 63" and d: "d = 63 - Suc i" by simp_all
  let ?L = "leavesOf ls sector"
  let ?p = "rightPos b i"
  show ?case
  proof (cases "bit (b - 1) i")
    case True
    then have pp: "rightPos b (Suc i) = ?p" by (simp add: rightPos_Suc del: power_Suc)
    have "buildRight h (b - 1) i \<lparr>sr_r = drop (?p * ls) sector, sr_leafSize = ls\<rparr> proof
        = buildRight h (b - 1) (Suc i) \<lparr>sr_r = drop (rightPos b (Suc i) * ls) sector, sr_leafSize = ls\<rparr> proof"
      using True i unfolding pp by (subst buildRight.simps) (simp add: and_exp_eq_0_iff_not_bit)
    also have "\<dots> = Inr (proof @ rightProof h ?L b (Suc i))" using d by (intro Suc.hyps(1))
    also have "rightProof h ?L b (Suc i) = rightProof h ?L b i"
      using True i by (subst (2) rightProof.simps) simp
    finally show ?thesis .
  next
    case False
    then have pp: "rightPos b (Suc i) = ?p + 2 ^ i" by (simp add: rightPos_Suc del: power_Suc)
    show ?thesis
    proof (cases "?p < length ?L")
      case inside: True
      then have "drop ?p ?L \<noteq> []" by simp
      then have ne: "drop (?p * ls) sector \<noteq> []"
        using ls by (metis leavesOf_drop leavesOf_Nil)
      have dd: "drop (2 ^ i * ls + ?p * ls) sector = drop (rightPos b (Suc i) * ls) sector"
        unfolding pp by (simp add: algebra_simps)
      have n: "NextSubtreeRoot h \<lparr>sr_r = drop (?p * ls) sector, sr_leafSize = ls\<rparr> (2 ^ i)
          = (Inr (Root h (stackOf h [] (take (2 ^ i) (drop ?p ?L)))),
             \<lparr>sr_r = drop (rightPos b (Suc i) * ls) sector, sr_leafSize = ls\<rparr>)"
        using ls ne by (simp add: NextSubtreeRoot_eq leavesOf_drop dd nat_power_eq del: power_Suc)
      have "buildRight h (b - 1) i \<lparr>sr_r = drop (?p * ls) sector, sr_leafSize = ls\<rparr> proof
          = buildRight h (b - 1) (Suc i)
              \<lparr>sr_r = drop (rightPos b (Suc i) * ls) sector, sr_leafSize = ls\<rparr>
              (proof @ [Root h (stackOf h [] (take (2 ^ i) (drop ?p ?L)))])"
        using False i by (subst buildRight.simps) (simp add: and_exp_eq_0_iff_not_bit n)
      also have "\<dots> = Inr ((proof @ [Root h (stackOf h [] (take (2 ^ i) (drop ?p ?L)))])
                         @ rightProof h ?L b (Suc i))"
        using d by (intro Suc.hyps(1))
      also have "(proof @ [Root h (stackOf h [] (take (2 ^ i) (drop ?p ?L)))]) @ rightProof h ?L b (Suc i)
          = proof @ rightProof h ?L b i"
        using False i inside by (subst (2) rightProof.simps) simp
      finally show ?thesis .
    next
      case outside: False
      then have "drop ?p ?L = []" by simp
      then have e: "drop (?p * ls) sector = []"
        using ls by (metis leavesOf_drop leavesOf_eq_Nil_iff)
      have n: "NextSubtreeRoot h \<lparr>sr_r = drop (?p * ls) sector, sr_leafSize = ls\<rparr> (2 ^ i)
          = (Inl EOF, \<lparr>sr_r = [], sr_leafSize = ls\<rparr>)"
        using ls e by (simp add: NextSubtreeRoot_eq)
      have "rightProof h ?L b i = []" using outside by (intro rightProof_Nil_of_le) simp
      moreover have "buildRight h (b - 1) i \<lparr>sr_r = drop (?p * ls) sector, sr_leafSize = ls\<rparr> proof
          = Inr proof"
        using False i by (subst buildRight.simps) (simp add: and_exp_eq_0_iff_not_bit n)
      ultimately show ?thesis by simp
    qed
  qed
qed

lemma bit_neg_word_of_nat:
  assumes "0 < b" and "i < 64"
  shows "((- (word_of_nat b :: 64 word)) AND 2 ^ i \<noteq> 0) = (\<not> bit (b - 1) i)"
proof -
  have "(word_of_nat b :: 64 word) - 1 = word_of_nat (b - 1)" using assms(1) by simp
  then have "- (word_of_nat b :: 64 word) = NOT (word_of_nat (b - 1))"
    by (simp add: minus_eq_not_minus_1)
  then show ?thesis using assms(2)
    by (simp add: and_exp_eq_0_iff_not_bit bit_not_iff bit_of_nat_iff possible_bit_word)
qed

lemma verifyRight_eq:
  assumes n: "length L < 2 ^ 63" and b0: "0 < b" and bn: "b \<le> length L"
  shows "i \<le> 63 \<Longrightarrow>
    \<exists>s'. verifyRight h (- word_of_nat b) (word_of_nat i) (rightProof h L b i)
            (stackOf h [] (take (rightPos b i) L)) = Some s'
        \<and> Root h s' = Root h (stackOf h [] L)"
proof (induction "63 - i" arbitrary: i)
  case 0
  then have "i = 63" by simp
  then have e: "rightProof h L b i = []" by (subst rightProof.simps) simp
  have b1: "b - 1 < 2 ^ 63" using n bn by simp
  have "length L \<le> rightPos b i" using \<open>i = 63\<close> n rightPos_63 [OF b1] by simp
  then show ?case by (subst verifyRight.simps) (simp add: e)
next
  case (Suc d)
  then have i: "i < 63" and d: "d = 63 - Suc i" and si: "Suc i \<le> 63" by simp_all
  have b1: "b - 1 < 2 ^ 63" using n bn by simp
  have "i < 2 ^ 64" using i by simp
  then have ui: "unat (word_of_nat i :: 64 word) = i"
    by (simp add: unsigned_of_nat take_bit_nat_eq_self)
  have wi: "(word_of_nat i :: 64 word) + 1 = word_of_nat (Suc i)" by simp
  let ?p = "rightPos b i"
  from Suc.hyps(1) [OF d si] obtain s' where
    ih: "verifyRight h (- word_of_nat b) (word_of_nat (Suc i)) (rightProof h L b (Suc i))
           (stackOf h [] (take (rightPos b (Suc i)) L)) = Some s'"
      "Root h s' = Root h (stackOf h [] L)" by blast
  show ?case
  proof (cases "bit (b - 1) i")
    case True
    then have pp: "rightPos b (Suc i) = ?p" by (simp add: rightPos_Suc del: power_Suc)
    have rp: "rightProof h L b i = rightProof h L b (Suc i)"
      using True i by (subst rightProof.simps) simp
    have t: "\<not> ((- (word_of_nat b :: 64 word)) AND 2 ^ i \<noteq> 0)"
      using True i b0 by (simp add: bit_neg_word_of_nat)
    show ?thesis
    proof (cases "rightProof h L b (Suc i) = []")
      case e: True
      then have "length L \<le> rightPos b (Suc i)"
        using n b1 si by (intro rightPos_ge_of_rightProof_Nil)
      then show ?thesis unfolding rp pp [symmetric] by (subst verifyRight.simps) (simp add: e)
    next
      case ne: False
      have "verifyRight h (- word_of_nat b) (word_of_nat i) (rightProof h L b (Suc i))
              (stackOf h [] (take ?p L))
          = verifyRight h (- word_of_nat b) (word_of_nat (Suc i)) (rightProof h L b (Suc i))
              (stackOf h [] (take ?p L))"
        using ne t by (subst verifyRight.simps) (simp add: ui add.commute)
      then show ?thesis using ih unfolding rp pp by simp
    qed
  next
    case False
    then have pp: "rightPos b (Suc i) = ?p + 2 ^ i" by (simp add: rightPos_Suc del: power_Suc)
    have t: "(- (word_of_nat b :: 64 word)) AND 2 ^ i \<noteq> 0"
      using False i b0 by (simp add: bit_neg_word_of_nat)
    show ?thesis
    proof (cases "?p < length L")
      case outside: False
      then have e: "rightProof h L b i = []" by (intro rightProof_Nil_of_le) simp
      show ?thesis using outside by (subst verifyRight.simps) (simp add: e)
    next
      case inside: True
      let ?blk = "take (2 ^ i) (drop ?p L)"
      have rp: "rightProof h L b i = Root h (stackOf h [] ?blk) # rightProof h L b (Suc i)"
        using False i inside by (subst rightProof.simps) simp
      have dv: "2 ^ i dvd length (take ?p L)"
        using inside by (simp add: rightPos_dvd min_def)
      have step: "verifyRight h (- word_of_nat b) (word_of_nat i) (rightProof h L b i)
              (stackOf h [] (take ?p L))
          = verifyRight h (- word_of_nat b) (word_of_nat (Suc i)) (rightProof h L b (Suc i))
              (appendNodeAtHeight h (stackOf h [] (take ?p L)) (Root h (stackOf h [] ?blk)) i)"
        using t by (subst verifyRight.simps) (simp add: rp ui add.commute)
      show ?thesis
      proof (cases "?p + 2 ^ i \<le> length L")
        case full: True
        then have len: "length ?blk = 2 ^ i" by simp
        have "appendNodeAtHeight h (stackOf h [] (take ?p L)) (Root h (stackOf h [] ?blk)) i
            = stackOf h [] (take ?p L @ ?blk)"
          using len dv by (rule stackOf_full_block)
        also have "take ?p L @ ?blk = take (rightPos b (Suc i)) L"
          unfolding pp by (simp add: take_add)
        finally show ?thesis using step ih by simp
      next
        case part: False
        then have "length L \<le> rightPos b (Suc i)" unfolding pp by simp
        then have e: "rightProof h L b (Suc i) = []" by (rule rightProof_Nil_of_le)
        have blk: "?blk = drop ?p L" using part by simp
        have ne: "drop ?p L \<noteq> []" using inside by simp
        have le: "length (drop ?p L) \<le> 2 ^ i" using part by simp
        have "Root h (appendNodeAtHeight h (stackOf h [] (take ?p L)) (Root h (stackOf h [] (drop ?p L))) i)
            = Root h (stackOf h [] (take ?p L @ drop ?p L))"
          using dv ne le by (rule Root_last_block)
        then have r: "Root h (appendNodeAtHeight h (stackOf h [] (take ?p L)) (Root h (stackOf h [] ?blk)) i)
            = Root h (stackOf h [] L)" unfolding blk by simp
        have "verifyRight h (- word_of_nat b) (word_of_nat (Suc i)) []
                (appendNodeAtHeight h (stackOf h [] (take ?p L)) (Root h (stackOf h [] ?blk)) i)
            = Some (appendNodeAtHeight h (stackOf h [] (take ?p L)) (Root h (stackOf h [] ?blk)) i)"
          by (subst verifyRight.simps) simp
        then show ?thesis using step r unfolding e by simp
      qed
    qed
  qed
qed

subsection \<open>Building and verifying\<close>

lemma length_leavesOf_le: "0 < ls \<Longrightarrow> length (leavesOf ls rd) \<le> length rd"
proof (induction ls rd rule: leavesOf.induct)
  case (1 ls rd)
  show ?case
  proof (cases "rd = []")
    case True
    then show ?thesis by simp
  next
    case False
    then have "length (leavesOf ls (drop ls rd)) \<le> length (drop ls rd)"
      using "1.IH" "1.prems" by simp
    then have "length (leavesOf ls (drop ls rd)) \<le> length rd - ls" by simp
    moreover have "0 < length rd" using False by simp
    moreover have "length (leavesOf ls rd) = Suc (length (leavesOf ls (drop ls rd)))"
      using "1.prems" False by (simp add: leavesOf_nonempty)
    ultimately show ?thesis using "1.prems" by linarith
  qed
qed

lemma build_eq:
  assumes ls: "0 < ls" and ab: "a < b" and bn: "b \<le> length (leavesOf ls sector)"
    and sz: "length sector < 2 ^ 63"
  shows "BuildRangeProof h (int a) (int b) (NewSubtreeReader sector ls)
    = Some (Inr (leftProof h (leavesOf ls sector) a 64 @ rightProof h (leavesOf ls sector) b 0))"
proof -
  let ?L = "leavesOf ls sector"
  have n: "length ?L < 2 ^ 63" using length_leavesOf_le [OF ls, of sector] sz by linarith
  have a64: "a < 2 ^ 64" using ab bn n by simp
  have hi: "(a div 2 ^ 64) * 2 ^ 64 = 0" using a64 by simp
  have an: "a \<le> length ?L" using ab bn by simp
  have l: "buildLeft h a 64 0 \<lparr>sr_r = sector, sr_leafSize = ls\<rparr> []
      = Some (Inr (leftProof h ?L a 64, \<lparr>sr_r = drop (a * ls) sector, sr_leafSize = ls\<rparr>))"
    using buildLeft_eq [OF ls an, of h 64 "[]"] unfolding hi by simp
  have sk: "Skip \<lparr>sr_r = drop (a * ls) sector, sr_leafSize = ls\<rparr> (int b - int a)
      = (if length (drop (a * ls) sector) < ls * (b - a) then Some EOF else None,
         \<lparr>sr_r = drop (rightPos b 0 * ls) sector, sr_leafSize = ls\<rparr>)"
  proof -
    have "nat (int b - int a) = b - a" by simp
    moreover have "ls * (b - a) + a * ls = b * ls" using ab by (simp add: algebra_simps)
    moreover have "rightPos b 0 = b" using ab by (intro rightPos_0) simp
    ultimately show ?thesis by (simp add: Skip_def Let_def)
  qed
  have "buildRight h (b - 1) 0 \<lparr>sr_r = drop (rightPos b 0 * ls) sector, sr_leafSize = ls\<rparr>
        (leftProof h ?L a 64)
      = Inr (leftProof h ?L a 64 @ rightProof h ?L b 0)"
    by (rule buildRight_eq [OF ls])
  then have r: "buildRight h (b - Suc 0) 0
        \<lparr>sr_r = drop (rightPos b 0 * ls) sector, sr_leafSize = ls\<rparr> (leftProof h ?L a 64)
      = Inr (leftProof h ?L a 64 @ rightProof h ?L b 0)"
    by simp
  have nb: "nat (int b - 1) = b - 1" by simp
  show ?thesis
    using ab by (simp add: BuildRangeProof_def NewSubtreeReader_def l sk r nb del: leftProof.simps)
qed

lemma verify_eq:
  assumes ls: "0 < ls" and ab: "a < b" and bn: "b \<le> length (leavesOf ls sector)"
    and sz: "length sector < 2 ^ 63"
  shows "VerifyReaderRangeProof h (leafRange ls sector a b) ls (int a) (int b)
      (leftProof h (leavesOf ls sector) a 64 @ rightProof h (leavesOf ls sector) b 0)
      (sectorRoot h ls sector) = Some (Inr True)"
proof -
  let ?L = "leavesOf ls sector"
  have n: "length ?L < 2 ^ 63" using length_leavesOf_le [OF ls, of sector] sz by linarith
  have a64: "a < 2 ^ 64" using ab bn n by simp
  have hi: "(a div 2 ^ 64) * 2 ^ 64 = 0" using a64 by simp
  have an: "a \<le> length ?L" using ab bn by simp
  have b0: "0 < b" using ab by simp
  have l: "verifyLeft h (word_of_nat a) 64 (leftProof h ?L a 64 @ rightProof h ?L b 0) []
      = (rightProof h ?L b 0, stackOf h [] (take a ?L))"
    using verifyLeft_eq [OF an, of 64 h "rightProof h ?L b 0"] unfolding hi by simp
  have lv: "leavesOf ls (leafRange ls sector a b) = take (b - a) (drop a ?L)"
    by (simp add: leafRange_def leavesOf_take [OF ls] leavesOf_drop [OF ls])
  have len: "length (leavesOf ls (leafRange ls sector a b)) = b - a"
    unfolding lv using bn ab by simp
  have m: "verifyLeaves h ls (b - a) (leafRange ls sector a b) (stackOf h [] (take a ?L))
      = Inr (stackOf h [] (take (rightPos b 0) ?L))"
  proof -
    have "verifyLeaves h ls (b - a) (leafRange ls sector a b) (stackOf h [] (take a ?L))
        = Inr (stackOf h (stackOf h [] (take a ?L)) (leavesOf ls (leafRange ls sector a b)))"
      using ls len by (rule verifyLeaves_eq)
    also have "stackOf h (stackOf h [] (take a ?L)) (leavesOf ls (leafRange ls sector a b))
        = stackOf h [] (take a ?L @ take (b - a) (drop a ?L))"
      unfolding lv by (simp add: stackOf_append)
    also have "take a ?L @ take (b - a) (drop a ?L) = take b ?L"
      using ab by (metis le_add_diff_inverse less_imp_le_nat take_add)
    finally show ?thesis using b0 by (simp add: rightPos_0)
  qed
  obtain s' where r: "verifyRight h (- word_of_nat b) (word_of_nat 0) (rightProof h ?L b 0)
            (stackOf h [] (take (rightPos b 0) ?L)) = Some s'"
      and rt: "Root h s' = Root h (stackOf h [] ?L)"
    using verifyRight_eq [OF n b0 bn, of 0 h] by auto
  have nba: "nat (int b - int a) = b - a" by simp
  show ?thesis
    using ab r rt
    by (simp add: VerifyReaderRangeProof_def NewStack_def l nba m sectorRoot_def
        del: leftProof.simps)
qed

subsection \<open>The sector root as a tree\<close>

lemma Root_two_blocks:
  assumes lx: "length xs = 2 ^ k" and ne: "ys \<noteq> []" and le: "length ys \<le> 2 ^ k"
  shows "Root h (stackOf h [] (xs @ ys))
         = nodeHash h (Root h (stackOf h [] xs)) (Root h (stackOf h [] ys))"
proof -
  have dv: "2 ^ k dvd length xs" using lx by simp
  have sx: "stackOf h [] xs = [(k, Root h (stackOf h [] xs))]"
    using perfect_subtree [of k h] lx by blast
  have "Root h (stackOf h [] (xs @ ys))
      = Root h (appendNodeAtHeight h (stackOf h [] xs) (Root h (stackOf h [] ys)) k)"
    using Root_last_block [OF dv ne le] by simp
  also have "\<dots> = foldl (\<lambda>root (ht', node). nodeHash h node root) (Root h (stackOf h [] ys))
                     (stackOf h [] xs)"
    by (rule Root_appendNodeAtHeight)
  also have "\<dots> = nodeHash h (Root h (stackOf h [] xs)) (Root h (stackOf h [] ys))"
    by (subst sx) simp
  finally show ?thesis .
qed

lemma Root_stackOf_merkleAt:
  "leaves \<noteq> [] \<Longrightarrow> length leaves \<le> 2 ^ k \<Longrightarrow> Root h (stackOf h [] leaves) = merkleAt h k leaves"
proof (induction k arbitrary: leaves)
  case 0
  then obtain x where "leaves = [x]" by (cases leaves) auto
  then show ?case by (simp add: stackOf_Cons)
next
  case (Suc k)
  show ?case
  proof (cases "length leaves \<le> 2 ^ k")
    case True
    then show ?thesis using Suc.IH [OF Suc.prems(1)] by simp
  next
    case False
    let ?xs = "take (2 ^ k) leaves" and ?ys = "drop (2 ^ k) leaves"
    have lx: "length ?xs = 2 ^ k" using False by simp
    have ne: "?ys \<noteq> []" using False by simp
    have le: "length ?ys \<le> 2 ^ k" using Suc.prems(2) by simp
    have nx: "?xs \<noteq> []" using lx by auto
    have "Root h (stackOf h [] (?xs @ ?ys))
        = nodeHash h (Root h (stackOf h [] ?xs)) (Root h (stackOf h [] ?ys))"
      using lx ne le by (rule Root_two_blocks)
    also have "Root h (stackOf h [] ?xs) = merkleAt h k ?xs"
      using nx lx by (intro Suc.IH) simp_all
    also have "Root h (stackOf h [] ?ys) = merkleAt h k ?ys"
      using ne le by (intro Suc.IH)
    finally show ?thesis using False by simp
  qed
qed

lemma sectorRoot_merkleRoot:
  "sectorRoot h leafSize sector = merkleRoot h (leavesOf leafSize sector)"
proof (cases "leavesOf leafSize sector = []")
  case True
  then show ?thesis by (simp add: sectorRoot_def merkleRoot_def NewStack_def)
next
  case False
  have "(length (leavesOf leafSize sector)) \<le> 2 ^ length (leavesOf leafSize sector)"
    by (simp add: less_imp_le_nat)
  then show ?thesis using False
    by (simp add: sectorRoot_def merkleRoot_def NewStack_def Root_stackOf_merkleAt)
qed

subsection \<open>The round trip\<close>

text \<open>
  C1. For a sector cut into leaves of a positive size, with fewer than \<open>2^63\<close> bytes (as
  every Go slice has), and every leaf range \<open>[a, b)\<close> with \<open>0 \<le> a < b \<le> total_leaves\<close>:
  \<open>BuildRangeProof\<close> over a \<open>SubtreeReader\<close> of the sector returns a proof, and
  \<open>VerifyReaderRangeProof\<close>, given the bytes of the leaves \<open>[a, b)\<close>, that proof and the
  sector's Merkle root, returns true. The sector's root, taken from the stack fed with all
  leaf hashes, is the root of the binary Merkle tree over the leaves.
\<close>

theorem range_proof_round_trip:
  assumes "0 < leafSize" and "0 \<le> a" and "a < b"
    and "b \<le> int (length (leavesOf leafSize sector))"
    and "length sector < 2 ^ 63"
  shows "\<exists>proof.
      BuildRangeProof h a b (NewSubtreeReader sector leafSize) = Some (Inr proof)
    \<and> BuildReaderRangeProof h sector leafSize a b = Some (Inr proof)
    \<and> VerifyReaderRangeProof h (leafRange leafSize sector (nat a) (nat b)) leafSize a b proof
        (sectorRoot h leafSize sector) = Some (Inr True)
    \<and> sectorRoot h leafSize sector = merkleRoot h (leavesOf leafSize sector)"
proof -
  have a: "a = int (nat a)" and b: "b = int (nat b)" using assms by simp_all
  have ab: "nat a < nat b" using assms by simp
  have bn: "nat b \<le> length (leavesOf leafSize sector)" using assms by simp
  have 1: "BuildRangeProof h (int (nat a)) (int (nat b)) (NewSubtreeReader sector leafSize)
      = Some (Inr (leftProof h (leavesOf leafSize sector) (nat a) 64
                   @ rightProof h (leavesOf leafSize sector) (nat b) 0))"
    using assms(1) ab bn assms(5) by (rule build_eq)
  have 2: "VerifyReaderRangeProof h (leafRange leafSize sector (nat a) (nat b)) leafSize
        (int (nat a)) (int (nat b))
        (leftProof h (leavesOf leafSize sector) (nat a) 64
           @ rightProof h (leavesOf leafSize sector) (nat b) 0)
        (sectorRoot h leafSize sector) = Some (Inr True)"
    using assms(1) ab bn assms(5) by (rule verify_eq)
  have 3: "BuildReaderRangeProof h sector leafSize a b
      = BuildRangeProof h a b (NewSubtreeReader sector leafSize)"
    using assms by (simp add: BuildReaderRangeProof_def)
  have 4: "sectorRoot h leafSize sector = merkleRoot h (leavesOf leafSize sector)"
    by (rule sectorRoot_merkleRoot)
  show ?thesis using 1 2 3 4 a b by metis
qed

theorem range_proof_round_trip_witness:
  "(0::nat) < 2 \<and> (0::int) \<le> 1 \<and> (1::int) < 3
   \<and> 3 \<le> int (length (leavesOf 2 sector7))
   \<and> length sector7 < 2 ^ 63
   \<and> (\<exists>proof.
        BuildRangeProof toyHasher 1 3 (NewSubtreeReader sector7 2) = Some (Inr proof)
      \<and> BuildReaderRangeProof toyHasher sector7 2 1 3 = Some (Inr proof)
      \<and> VerifyReaderRangeProof toyHasher (leafRange 2 sector7 (nat 1) (nat 3)) 2 1 3 proof
          (sectorRoot toyHasher 2 sector7) = Some (Inr True)
      \<and> sectorRoot toyHasher 2 sector7 = merkleRoot toyHasher (leavesOf 2 sector7))"
proof -
  have l: "leavesOf 2 sector7 = [[11, 12], [13, 14], [15, 16], [17]]"
    by (simp add: sector7_def leavesOf.simps)
  have "3 \<le> int (length (leavesOf 2 sector7))" by (simp add: l)
  moreover have "length sector7 < 2 ^ 63" by (simp add: sector7_def)
  ultimately show ?thesis
    using range_proof_round_trip [of 2 1 3 sector7 toyHasher] by simp
qed

end
